theory Spec2Isabelle
  imports Main "HOL-Library.Word" "HOL-Library.DAList"
begin

section \<open>JavaScript strings\<close>

text \<open>
  A JavaScript string is a sequence of UTF-16 code units. Offsets (\<open>cursor.ch\<close>,
  \<open>match.index\<close>, \<open>length\<close>) count code units. ASCII literals of the source are
  written \<open>js ''...''\<close>.
\<close>

type_synonym jschar = "16 word"
type_synonym jsstring = "jschar list"

definition js :: "string \<Rightarrow> jsstring" where
  "js s = map of_char s"

text \<open>
  \<open>String.prototype.trim\<close> strips the code units of the ECMAScript productions
  WhiteSpace and LineTerminator from both ends.
\<close>

definition isWhiteSpace :: "jschar \<Rightarrow> bool" where
  "isWhiteSpace c \<longleftrightarrow>
     c = 0x0009 \<or> c = 0x000A \<or> c = 0x000B \<or> c = 0x000C \<or> c = 0x000D \<or> c = 0x0020 \<or>
     c = 0x00A0 \<or> c = 0x1680 \<or> (0x2000 \<le> c \<and> c \<le> 0x200A) \<or> c = 0x2028 \<or>
     c = 0x2029 \<or> c = 0x202F \<or> c = 0x205F \<or> c = 0x3000 \<or> c = 0xFEFF"

definition trim :: "jsstring \<Rightarrow> jsstring" where
  "trim s = rev (dropWhile isWhiteSpace (rev (dropWhile isWhiteSpace s)))"

text \<open>\<open>s.split(sep)\<close> for a one-unit separator; the empty string gives one empty piece.\<close>

fun split :: "jschar \<Rightarrow> jsstring \<Rightarrow> jsstring list" where
  "split sep [] = [[]]"
| "split sep (c # cs) =
     (if c = sep then [] # split sep cs
      else (case split sep cs of
              [] \<Rightarrow> [[c]]
            | piece # pieces \<Rightarrow> (c # piece) # pieces))"

text \<open>\<open>s.includes(t)\<close>: \<open>t\<close> occurs in \<open>s\<close> as a contiguous run.\<close>

fun startsWith :: "jsstring \<Rightarrow> jsstring \<Rightarrow> bool" where
  "startsWith s [] = True"
| "startsWith [] (t # ts) = False"
| "startsWith (c # cs) (t # ts) = (c = t \<and> startsWith cs ts)"

fun includes_js :: "jsstring \<Rightarrow> jsstring \<Rightarrow> bool" where
  "includes_js [] t = startsWith [] t"
| "includes_js (c # cs) t = (startsWith (c # cs) t \<or> includes_js cs t)"

section \<open>Settings and the folder tree\<close>

text \<open>\<open>DEFAULT_SETTINGS\<close> and the object \<open>this.settings\<close>.\<close>

record settings =
  enableCascade :: bool
  stopFolders :: jsstring
  enableWarning :: bool
  warningThreshold :: int
  trashStrategy :: jsstring

definition DEFAULT_SETTINGS :: settings where
  "DEFAULT_SETTINGS =
     \<lparr>enableCascade = True, stopFolders = js ''assets'', enableWarning = True,
      warningThreshold = 3, trashStrategy = js ''system''\<rparr>"

text \<open>
  The host's file tree as the plugin reads it. An entry of \<open>children\<close> is read through
  \<open>name\<close> and \<open>path\<close> only. A folder carries \<open>name\<close>, \<open>path\<close>, \<open>children\<close>, the value
  of \<open>isRoot()\<close> and \<open>parent\<close> (\<open>None\<close> for \<open>null\<close>); the chain of parents is finite.
\<close>

record child =
  child_name :: jsstring
  child_path :: jsstring

datatype tfolder =
  TFolder (folder_name: jsstring) (folder_path: jsstring) (folder_children: "child list")
    (folder_isRoot: bool) (folder_parent: "tfolder option")

record tfile =
  file_name :: jsstring
  file_path :: jsstring
  file_parent :: "tfolder option"

section \<open>Cascade Folder Calculator\<close>

text \<open>\<open>this.settings.stopFolders.split(',').map(s => s.trim()).filter(s => s.length > 0)\<close>\<close>

definition stopFolderNames :: "settings \<Rightarrow> jsstring list" where
  "stopFolderNames st =
     filter (\<lambda>s. length s > 0) (map trim (split 0x2C (stopFolders st)))"

definition isSystem :: "jsstring \<Rightarrow> bool" where
  "isSystem name \<longleftrightarrow>
     name = js ''.DS_Store'' \<or> name = js ''Thumbs.db'' \<or> name = js ''Desktop.ini''"

text \<open>
  The \<open>while\<close> loop of \<open>calculateCascadeFolders\<close>, with its three variables
  \<open>currentFolder\<close>, \<open>ignoredPaths\<close> and \<open>foldersToDelete\<close>.
\<close>

fun cascadeLoop ::
  "jsstring list \<Rightarrow> tfolder option \<Rightarrow> jsstring set \<Rightarrow> tfolder list \<Rightarrow> tfolder list" where
  "cascadeLoop stopNames None ignoredPaths foldersToDelete = foldersToDelete"
| "cascadeLoop stopNames (Some (TFolder name path children isRoot parent)) ignoredPaths
      foldersToDelete =
     (if isRoot then foldersToDelete
      else if name \<in> set stopNames then foldersToDelete
      else
        (let remaining =
               filter (\<lambda>c. \<not> isSystem (child_name c) \<and> \<not> (child_path c \<in> ignoredPaths))
                 children
         in if length remaining = 0
            then cascadeLoop stopNames parent (insert path ignoredPaths)
                   (foldersToDelete @ [TFolder name path children isRoot parent])
            else foldersToDelete))"

definition calculateCascadeFolders :: "settings \<Rightarrow> tfile \<Rightarrow> tfolder list" where
  "calculateCascadeFolders st targetFile =
     (if \<not> enableCascade st then []
      else cascadeLoop (stopFolderNames st) (file_parent targetFile)
             {file_path targetFile} [])"

text \<open>The folders above a file, innermost first.\<close>

fun ancestors :: "tfolder option \<Rightarrow> tfolder list" where
  "ancestors None = []"
| "ancestors (Some (TFolder name path children isRoot parent)) =
     TFolder name path children isRoot parent # ancestors parent"

subsection \<open>An example tree: \<open>A/B/C/file.png\<close>\<close>

definition ex_root :: tfolder where
  "ex_root = TFolder [] (js ''/'') [\<lparr>child_name = js ''A'', child_path = js ''A''\<rparr>] True None"
definition ex_A :: tfolder where
  "ex_A = TFolder (js ''A'') (js ''A'') [\<lparr>child_name = js ''B'', child_path = js ''A/B''\<rparr>] False (Some ex_root)"
definition ex_B :: tfolder where
  "ex_B = TFolder (js ''B'') (js ''A/B'')
     [\<lparr>child_name = js ''C'', child_path = js ''A/B/C''\<rparr>, \<lparr>child_name = js ''Thumbs.db'', child_path = js ''A/B/Thumbs.db''\<rparr>] False (Some ex_A)"
definition ex_C :: tfolder where
  "ex_C = TFolder (js ''C'') (js ''A/B/C'')
     [\<lparr>child_name = js ''file.png'', child_path = js ''A/B/C/file.png''\<rparr>, \<lparr>child_name = js ''.DS_Store'', child_path = js ''A/B/C/.DS_Store''\<rparr>] False (Some ex_B)"
definition ex_file :: tfile where
  "ex_file = \<lparr>file_name = js ''file.png'', file_path = js ''A/B/C/file.png'', file_parent = Some ex_C\<rparr>"

definition ex_settings :: settings where
  "ex_settings = DEFAULT_SETTINGS\<lparr>stopFolders := js '' A ,, x''\<rparr>"

subsection \<open>The plan of the calculator\<close>

lemma cascadeLoop_append:
  "cascadeLoop stopNames cur ignoredPaths acc = acc @ cascadeLoop stopNames cur ignoredPaths []"
proof (induction cur arbitrary: ignoredPaths acc rule: ancestors.induct)
  case 1
  show ?case by simp
next
  case (2 name path children isRoot parent)
  show ?case
    using "2.IH" [of "insert path ignoredPaths" "acc @ [TFolder name path children isRoot parent]"]
      "2.IH" [of "insert path ignoredPaths" "[TFolder name path children isRoot parent]"]
    by (cases isRoot) (simp_all add: Let_def)
qed

lemma cascadeLoop_step:
  "cascadeLoop stopNames (Some f) ignoredPaths [] =
     (if folder_isRoot f \<or> folder_name f \<in> set stopNames
         \<or> (\<exists>c \<in> set (folder_children f). \<not> isSystem (child_name c) \<and> child_path c \<notin> ignoredPaths)
      then []
      else f # cascadeLoop stopNames (folder_parent f) (insert (folder_path f) ignoredPaths) [])"
proof (cases f)
  case (TFolder name path children isRoot parent)
  show ?thesis
    unfolding TFolder
    using cascadeLoop_append [of stopNames parent "insert path ignoredPaths" "[TFolder name path children isRoot parent]"]
    by (auto simp add: Let_def filter_empty_conv)
qed

lemma cascadeLoop_children:
  "i < length (cascadeLoop stopNames cur ignoredPaths []) \<Longrightarrow>
   c \<in> set (folder_children (cascadeLoop stopNames cur ignoredPaths [] ! i)) \<Longrightarrow>
   isSystem (child_name c) \<or> child_path c \<in> ignoredPaths
     \<or> child_path c \<in> folder_path ` set (take i (cascadeLoop stopNames cur ignoredPaths []))"
proof (induction cur arbitrary: ignoredPaths i rule: ancestors.induct)
  case 1
  then show ?case by simp
next
  case (2 name path children isRoot parent)
  let ?f = "TFolder name path children isRoot parent"
  let ?rest = "cascadeLoop stopNames parent (insert path ignoredPaths) []"
  show ?case
  proof (cases "cascadeLoop stopNames (Some ?f) ignoredPaths [] = []")
    case True
    with "2.prems" show ?thesis by simp
  next
    case False
    then have run: "cascadeLoop stopNames (Some ?f) ignoredPaths [] = ?f # ?rest"
      and empty: "\<forall>c \<in> set children. isSystem (child_name c) \<or> child_path c \<in> ignoredPaths"
      by (auto simp add: cascadeLoop_step split: if_splits)
    show ?thesis
    proof (cases i)
      case 0
      with "2.prems" run empty show ?thesis by auto
    next
      case (Suc j)
      with "2.prems" run have "j < length ?rest" and "c \<in> set (folder_children (?rest ! j))"
        by auto
      from "2.IH" [OF this] show ?thesis
        unfolding run Suc by auto
    qed
  qed
qed

lemma cascadeLoop_members:
  "f \<in> set (cascadeLoop stopNames cur ignoredPaths []) \<Longrightarrow>
   folder_name f \<notin> set stopNames \<and> \<not> folder_isRoot f"
proof (induction cur arbitrary: ignoredPaths rule: ancestors.induct)
  case 1
  then show ?case by simp
next
  case (2 name path children isRoot parent)
  then show ?case
    by (auto simp add: cascadeLoop_step split: if_splits)
qed

lemma cascadeLoop_chain:
  "cascadeLoop stopNames cur ignoredPaths [] =
     take (length (cascadeLoop stopNames cur ignoredPaths [])) (ancestors cur)"
proof (induction cur arbitrary: ignoredPaths rule: ancestors.induct)
  case 1
  show ?case by simp
next
  case (2 name path children isRoot parent)
  show ?case
    using "2.IH" [of "insert path ignoredPaths"]
    by (auto simp add: cascadeLoop_step simp del: cascadeLoop.simps)
qed

text \<open>
  C2. The plan of \<open>calculateCascadeFolders\<close>: every child of a planned folder is a
  system-noise file, the target itself, or a folder planned before it (the plan is an
  initial stretch of the target's chain of parents, innermost first, so the folders
  planned before are descendants); no planned folder is the root or carries a configured
  barrier name (a trimmed, non-empty piece of \<open>stopFolders\<close>); a barrier name on the
  target's immediate parent gives the empty plan whatever that folder holds, and so does
  a target whose immediate parent is the root.
\<close>

theorem calculateCascadeFolders_plan:
  "(let plan = calculateCascadeFolders st targetFile in
     (\<forall>i < length plan. \<forall>c \<in> set (folder_children (plan ! i)).
        isSystem (child_name c) \<or> child_path c = file_path targetFile
          \<or> child_path c \<in> folder_path ` set (take i plan))
     \<and> plan = take (length plan) (ancestors (file_parent targetFile))
     \<and> (\<forall>f \<in> set plan. \<not> folder_isRoot f
          \<and> (\<forall>b \<in> set (split 0x2C (stopFolders st)). trim b \<noteq> [] \<longrightarrow> folder_name f \<noteq> trim b))
     \<and> (\<forall>p. file_parent targetFile = Some p
            \<and> (\<exists>b \<in> set (split 0x2C (stopFolders st)). trim b \<noteq> [] \<and> folder_name p = trim b)
          \<longrightarrow> plan = [])
     \<and> (\<forall>p. file_parent targetFile = Some p \<and> folder_isRoot p \<longrightarrow> plan = []))"
proof -
  let ?stops = "stopFolderNames st"
  let ?run = "cascadeLoop ?stops (file_parent targetFile) {file_path targetFile} []"
  have stops: "set ?stops = {trim b |b. b \<in> set (split 0x2C (stopFolders st)) \<and> trim b \<noteq> []}"
    by (auto simp add: stopFolderNames_def)
  have a: "\<forall>i < length ?run. \<forall>c \<in> set (folder_children (?run ! i)).
        isSystem (child_name c) \<or> child_path c = file_path targetFile
          \<or> child_path c \<in> folder_path ` set (take i ?run)"
  proof (intro allI impI ballI)
    fix i c
    assume "i < length ?run" and "c \<in> set (folder_children (?run ! i))"
    from cascadeLoop_children [OF this]
    show "isSystem (child_name c) \<or> child_path c = file_path targetFile
          \<or> child_path c \<in> folder_path ` set (take i ?run)"
      by simp
  qed
  have b: "?run = take (length ?run) (ancestors (file_parent targetFile))"
    by (rule cascadeLoop_chain)
  have c: "\<forall>f \<in> set ?run. \<not> folder_isRoot f
          \<and> (\<forall>b \<in> set (split 0x2C (stopFolders st)). trim b \<noteq> [] \<longrightarrow> folder_name f \<noteq> trim b)"
  proof
    fix f assume "f \<in> set ?run"
    from cascadeLoop_members [OF this] show "\<not> folder_isRoot f
          \<and> (\<forall>b \<in> set (split 0x2C (stopFolders st)). trim b \<noteq> [] \<longrightarrow> folder_name f \<noteq> trim b)"
      unfolding stops by auto
  qed
  have d: "\<forall>p. file_parent targetFile = Some p
            \<and> (\<exists>b \<in> set (split 0x2C (stopFolders st)). trim b \<noteq> [] \<and> folder_name p = trim b)
          \<longrightarrow> ?run = []"
  proof (intro allI impI)
    fix p
    assume h: "file_parent targetFile = Some p
            \<and> (\<exists>b \<in> set (split 0x2C (stopFolders st)). trim b \<noteq> [] \<and> folder_name p = trim b)"
    then have "folder_name p \<in> set ?stops" unfolding stops by auto
    with h show "?run = []" by (simp add: cascadeLoop_step)
  qed
  have e: "\<forall>p. file_parent targetFile = Some p \<and> folder_isRoot p \<longrightarrow> ?run = []"
    by (simp add: cascadeLoop_step)
  show ?thesis
  proof (cases "enableCascade st")
    case True
    then have "calculateCascadeFolders st targetFile = ?run"
      by (simp add: calculateCascadeFolders_def)
    show ?thesis
      unfolding Let_def \<open>calculateCascadeFolders st targetFile = ?run\<close>
      using a b c d e by (intro conjI)
  next
    case False
    then have "calculateCascadeFolders st targetFile = []"
      by (simp add: calculateCascadeFolders_def)
    then show ?thesis by (simp add: Let_def)
  qed
qed

text \<open>
  The theorem at the example tree with \<open>stopFolders = " A ,, x"\<close>: the plan is
  \<open>[C, B]\<close>; the folder \<open>C\<close> inside \<open>B\<close> was planned before \<open>B\<close>.
\<close>

theorem calculateCascadeFolders_plan_witness:
  "calculateCascadeFolders ex_settings ex_file = [ex_C, ex_B]
   \<and> (isSystem (js ''C'') \<or> js ''A/B/C'' = file_path ex_file
        \<or> js ''A/B/C'' \<in> folder_path ` set (take 1 [ex_C, ex_B]))
   \<and> \<not> folder_isRoot ex_B \<and> folder_name ex_B \<noteq> trim (js '' x'')"
proof -
  let ?kid = "\<lparr>child_name = js ''C'', child_path = js ''A/B/C''\<rparr>"
  have plan: "calculateCascadeFolders ex_settings ex_file = [ex_C, ex_B]"
    by code_simp
  have len: "(1::nat) < length [ex_C, ex_B]"
    by simp
  have kid: "?kid \<in> set (folder_children ([ex_C, ex_B] ! 1))"
    by (simp add: ex_B_def)
  have mem: "ex_B \<in> set [ex_C, ex_B]"
    by simp
  have piece: "js '' x'' \<in> set (split 0x2C (stopFolders ex_settings))"
    by code_simp
  have nonempty: "trim (js '' x'') \<noteq> []"
    by code_simp
  note inst = calculateCascadeFolders_plan [of ex_settings ex_file, unfolded Let_def plan]
  note children = conjunct1 [OF inst, rule_format, OF len kid]
  note names = conjunct1 [OF conjunct2 [OF conjunct2 [OF inst]], rule_format, OF mem]
  from children have one: "isSystem (js ''C'') \<or> js ''A/B/C'' = file_path ex_file
        \<or> js ''A/B/C'' \<in> folder_path ` set (take 1 [ex_C, ex_B])"
    by (simp only: child.simps)
  from names have root: "\<not> folder_isRoot ex_B"
    by (rule conjunct1)
  from names have "\<forall>b\<in>set (split 0x2C (stopFolders ex_settings)). trim b \<noteq> [] \<longrightarrow> folder_name ex_B \<noteq> trim b"
    by (rule conjunct2)
  from this [rule_format, OF piece nonempty] have name: "folder_name ex_B \<noteq> trim (js '' x'')" .
  from plan one root name show ?thesis
    by (intro conjI)
qed

section \<open>Reference Counter\<close>

text \<open>
  \<open>app.metadataCache.resolvedLinks\<close>: an object from source paths to objects from
  target paths to counts. \<open>Object.entries\<close> lists its keys once each, in order. The
  inner objects are plain objects: their own properties are the recorded counts.
\<close>

type_synonym resolvedLinks = "(jsstring, jsstring \<rightharpoonup> nat) alist"

text \<open>
  \<open>links[targetPath]\<close> reads the own property of that name or, when there is none, the
  member of that name that a plain object inherits from \<open>Object.prototype\<close>; it is
  \<open>undefined\<close> when there is neither.
\<close>

definition objectPrototype :: "jsstring list" where
  "objectPrototype =
     [js ''constructor'', js ''__defineGetter__'', js ''__defineSetter__'',
      js ''hasOwnProperty'', js ''__lookupGetter__'', js ''__lookupSetter__'',
      js ''isPrototypeOf'', js ''propertyIsEnumerable'', js ''toString'', js ''valueOf'',
      js ''__proto__'', js ''toLocaleString'']"

datatype property = Undefined | Count nat | Inherited jsstring

definition getProperty :: "(jsstring \<rightharpoonup> nat) \<Rightarrow> jsstring \<Rightarrow> property" where
  "getProperty links key =
     (case links key of
        Some count \<Rightarrow> Count count
      | None \<Rightarrow> if key \<in> set objectPrototype then Inherited key else Undefined)"

text \<open>
  The value of \<open>totalRefCount\<close>: a number, or a string once \<open>+=\<close> has met a value that is
  no number. Counts are natural numbers; \<open>+\<close> on a string writes a number in decimal
  digits (as JavaScript does below \<open>10^21\<close>, far above any count of links).
\<close>

datatype jsvalue = JSNumber nat | JSString jsstring

fun numberToString :: "nat \<Rightarrow> jsstring" where
  "numberToString n =
     (if n < 10 then [of_nat (48 + n)]
      else numberToString (n div 10) @ [of_nat (48 + n mod 10)])"

declare numberToString.simps [simp del]

fun toString :: "jsvalue \<Rightarrow> jsstring" where
  "toString (JSNumber n) = numberToString n"
| "toString (JSString s) = s"

text \<open>
  The string an inherited member converts to: \<open>__proto__\<close> is \<open>Object.prototype\<close>
  itself, \<open>constructor\<close> is the function \<open>Object\<close>, every other member is a native
  function of its own name.
\<close>

definition inheritedToString :: "jsstring \<Rightarrow> jsstring" where
  "inheritedToString member =
     (if member = js ''__proto__'' then js ''[object Object]''
      else js ''function '' @ (if member = js ''constructor'' then js ''Object'' else member)
             @ js ''() { [native code] }'')"

text \<open>\<open>a + b\<close> on numbers and strings: the sum of two numbers, the concatenation otherwise.\<close>

fun jsPlus :: "jsvalue \<Rightarrow> jsvalue \<Rightarrow> jsvalue" where
  "jsPlus (JSNumber a) (JSNumber b) = JSNumber (a + b)"
| "jsPlus (JSNumber a) (JSString t) = JSString (numberToString a @ t)"
| "jsPlus (JSString s) b = JSString (s @ toString b)"

text \<open>
  \<open>total > k\<close> for a number \<open>k\<close>. A string is converted to a number first, and a
  comparison with \<open>NaN\<close> is false. \<open>stringToNumber\<close> converts the strings of decimal
  digits, with white space around them; it is \<open>None\<close> for \<open>NaN\<close>, and also for the
  other numeric literals (with a sign, a fraction, an exponent, a radix prefix, or
  \<open>Infinity\<close>), which the loop below never builds: its strings hold the text of a
  function or of an object.
\<close>

definition isDigit :: "jschar \<Rightarrow> bool" where
  "isDigit c \<longleftrightarrow> 0x30 \<le> c \<and> c \<le> 0x39"

definition stringToNumber :: "jsstring \<Rightarrow> nat option" where
  "stringToNumber s =
     (let digits = trim s
      in if list_all isDigit digits
         then Some (foldl (\<lambda>n c. 10 * n + (unat c - 48)) 0 digits)
         else None)"

fun exceeds :: "jsvalue \<Rightarrow> nat \<Rightarrow> bool" where
  "exceeds (JSNumber n) k = (n > k)"
| "exceeds (JSString s) k =
     (case stringToNumber s of None \<Rightarrow> False | Some n \<Rightarrow> n > k)"

record refData =
  totalCount :: jsvalue
  fileCount :: nat
  files :: "jsstring list"

text \<open>
  The \<open>for\<close> loop of \<open>getReferences\<close> over \<open>Object.entries(resolvedLinks)\<close>. A count
  that is not \<open>undefined\<close> is a recorded number or an inherited member, which \<open>+=\<close>
  converts to its string.
\<close>

fun referencesLoop ::
  "jsstring \<Rightarrow> (jsstring \<times> (jsstring \<rightharpoonup> nat)) list \<Rightarrow> jsvalue \<Rightarrow> jsstring list
     \<Rightarrow> jsvalue \<times> jsstring list" where
  "referencesLoop targetPath [] totalRefCount refFiles = (totalRefCount, refFiles)"
| "referencesLoop targetPath ((sourcePath, links) # entries) totalRefCount refFiles =
     (case getProperty links targetPath of
        Undefined \<Rightarrow> referencesLoop targetPath entries totalRefCount refFiles
      | Count count \<Rightarrow>
          referencesLoop targetPath entries (jsPlus totalRefCount (JSNumber count))
            (refFiles @ [sourcePath])
      | Inherited member \<Rightarrow>
          referencesLoop targetPath entries
            (jsPlus totalRefCount (JSString (inheritedToString member)))
            (refFiles @ [sourcePath]))"

definition getReferences :: "resolvedLinks \<Rightarrow> tfile \<Rightarrow> refData" where
  "getReferences index targetFile =
     (let targetPath = file_path targetFile;
          (totalRefCount, refFiles) =
             referencesLoop targetPath (DAList.impl_of index) (JSNumber 0) []
      in \<lparr>totalCount = totalRefCount, fileCount = length refFiles, files = refFiles\<rparr>)"

text \<open>
  In the words of the specification: the source documents whose map contains the target,
  and the occurrences one source records for it.
\<close>

definition referencingDocuments :: "resolvedLinks \<Rightarrow> jsstring \<Rightarrow> jsstring set" where
  "referencingDocuments index targetPath =
     {sourcePath. \<exists>links count.
        DAList.lookup index sourcePath = Some links \<and> links targetPath = Some count}"

definition occurrences :: "resolvedLinks \<Rightarrow> jsstring \<Rightarrow> jsstring \<Rightarrow> nat" where
  "occurrences index targetPath sourcePath =
     (case DAList.lookup index sourcePath of
        None \<Rightarrow> 0
      | Some links \<Rightarrow> (case links targetPath of None \<Rightarrow> 0 | Some count \<Rightarrow> count))"

text \<open>
  An index where \<open>note.md\<close> embeds the example file twice, \<open>other.md\<close> links it once
  and \<open>third.md\<close> links something else.
\<close>

definition ex_index3 :: resolvedLinks where
  "ex_index3 =
     DAList.update (js ''note.md'') [js ''A/B/C/file.png'' \<mapsto> 2]
       (DAList.update (js ''other.md'') [js ''A/B/C/file.png'' \<mapsto> 1]
         (DAList.update (js ''third.md'') [js ''x.png'' \<mapsto> 1] DAList.empty))"

text \<open>
  A file \<open>constructor\<close> at the root of the vault, and an index where \<open>note.md\<close> links it
  twice and \<open>other.md\<close> links something else.
\<close>

definition ex_member :: tfile where
  "ex_member = \<lparr>file_name = js ''constructor'', file_path = js ''constructor'',
                 file_parent = Some ex_root\<rparr>"

definition ex_index_member :: resolvedLinks where
  "ex_index_member =
     DAList.update (js ''other.md'') [js ''x.png'' \<mapsto> 1]
       (DAList.update (js ''note.md'') [js ''constructor'' \<mapsto> 2] DAList.empty)"

subsection \<open>What the loop computes\<close>

lemma getProperty_own:
  "targetPath \<notin> set objectPrototype \<Longrightarrow>
   getProperty links targetPath =
     (case links targetPath of None \<Rightarrow> Undefined | Some count \<Rightarrow> Count count)"
  by (simp add: getProperty_def split: option.splits)

lemma referencesLoop_eq:
  "p \<notin> set objectPrototype \<Longrightarrow>
   referencesLoop p entries (JSNumber n) refFiles =
     (JSNumber (n + sum_list (map (\<lambda>(s, links). case links p of None \<Rightarrow> 0 | Some c \<Rightarrow> c) entries)),
      refFiles @ map fst (filter (\<lambda>(s, links). links p \<noteq> None) entries))"
  by (induction entries arbitrary: n refFiles) (auto simp add: getProperty_own split: option.splits)

lemma referencing_set:
  "set (map fst (filter (\<lambda>(s, links). links p \<noteq> None) (DAList.impl_of index)))
     = referencingDocuments index p"
proof -
  have d: "distinct (map fst (DAList.impl_of index))" by simp
  show ?thesis
    unfolding referencingDocuments_def DAList.lookup.rep_eq
    using d by (force simp add: image_iff dest: map_of_SomeD)
qed

lemma referencing_distinct:
  "distinct (map fst (filter (\<lambda>(s, links). links p \<noteq> None) (DAList.impl_of index)))"
  by (rule distinct_map_fst_filter) simp

lemma sum_occurrences:
  assumes "distinct (map fst entries)"
  shows "sum_list (map (\<lambda>(s, links). case links p of None \<Rightarrow> 0 | Some c \<Rightarrow> (c::nat)) entries)
     = (\<Sum>s \<in> fst ` set (filter (\<lambda>(s, links). links p \<noteq> None) entries).
          (case map_of entries s of None \<Rightarrow> 0
           | Some links \<Rightarrow> (case links p of None \<Rightarrow> 0 | Some count \<Rightarrow> count)))"
  using assms
proof (induction entries)
  case Nil
  show ?case by simp
next
  case (Cons e entries)
  obtain s links where e: "e = (s, links)" by (cases e)
  from Cons.prems e have fresh: "s \<notin> fst ` set entries" and d: "distinct (map fst entries)"
    by auto
  let ?R = "fst ` set (filter (\<lambda>(s, links). links p \<noteq> None) entries)"
  have notin: "s \<notin> ?R" using fresh by auto
  have fin: "finite ?R" by simp
  have same: "(\<Sum>x \<in> ?R. (case map_of (e # entries) x of None \<Rightarrow> 0
           | Some links \<Rightarrow> (case links p of None \<Rightarrow> 0 | Some count \<Rightarrow> count)))
       = (\<Sum>x \<in> ?R. (case map_of entries x of None \<Rightarrow> 0
           | Some links \<Rightarrow> (case links p of None \<Rightarrow> 0 | Some count \<Rightarrow> count)))"
    by (rule sum.cong) (use notin e in auto)
  show ?case
  proof (cases "links p")
    case None
    with e same Cons.IH [OF d] show ?thesis by simp
  next
    case (Some c)
    with e same Cons.IH [OF d] notin fin show ?thesis by simp
  qed
qed

text \<open>
  For a target whose path is not the name of an inherited member the loop returns what
  the specification asks for.
\<close>

lemma getReferences_summary:
  assumes "file_path targetFile \<notin> set objectPrototype"
  shows "totalCount (getReferences index targetFile)
     = JSNumber (\<Sum>s \<in> referencingDocuments index (file_path targetFile).
          occurrences index (file_path targetFile) s)
   \<and> fileCount (getReferences index targetFile)
     = card (referencingDocuments index (file_path targetFile))
   \<and> set (files (getReferences index targetFile))
     = referencingDocuments index (file_path targetFile)
   \<and> distinct (files (getReferences index targetFile))"
proof -
  let ?p = "file_path targetFile"
  let ?es = "DAList.impl_of index"
  let ?fs = "map fst (filter (\<lambda>(s, links). links ?p \<noteq> None) ?es)"
  have d: "distinct (map fst ?es)" by simp
  have files: "files (getReferences index targetFile) = ?fs"
    by (simp add: getReferences_def referencesLoop_eq [OF assms] Let_def)
  have tot: "totalCount (getReferences index targetFile)
      = JSNumber (sum_list (map (\<lambda>(s, links). case links ?p of None \<Rightarrow> 0 | Some c \<Rightarrow> c) ?es))"
    by (simp add: getReferences_def referencesLoop_eq [OF assms] Let_def)
  have count: "fileCount (getReferences index targetFile) = length ?fs"
    by (simp add: getReferences_def referencesLoop_eq [OF assms] Let_def)
  have set_fs: "set ?fs = referencingDocuments index ?p"
    by (rule referencing_set)
  have dist: "distinct ?fs" by (rule referencing_distinct)
  have "length ?fs = card (set ?fs)"
    using dist by (simp only: distinct_card)
  with count set_fs have c2: "fileCount (getReferences index targetFile)
     = card (referencingDocuments index ?p)" by simp
  have "sum_list (map (\<lambda>(s, links). case links ?p of None \<Rightarrow> 0 | Some c \<Rightarrow> c) ?es)
     = (\<Sum>s \<in> fst ` set (filter (\<lambda>(s, links). links ?p \<noteq> None) ?es).
          occurrences index ?p s)"
    unfolding occurrences_def DAList.lookup.rep_eq by (rule sum_occurrences [OF d])
  also have "fst ` set (filter (\<lambda>(s, links). links ?p \<noteq> None) ?es) = referencingDocuments index ?p"
    using set_fs by simp
  finally have c1: "totalCount (getReferences index targetFile)
     = JSNumber (\<Sum>s \<in> referencingDocuments index ?p. occurrences index ?p s)"
    using tot by simp
  from c1 c2 set_fs dist files show ?thesis by simp
qed

text \<open>
  A string the loop builds holds the text of a function or of an object, so the letter
  \<open>u\<close> or the letter \<open>j\<close>; such a string converts to \<open>NaN\<close>, and no comparison with it
  is true.
\<close>

definition functionText :: "jsstring \<Rightarrow> bool" where
  "functionText s \<longleftrightarrow> 0x75 \<in> set s \<or> 0x6A \<in> set s"

lemma inheritedToString_text: "functionText (inheritedToString member)"
  by (simp add: functionText_def inheritedToString_def js_def)

lemma dropWhile_keeps: "c \<in> set s \<Longrightarrow> \<not> P c \<Longrightarrow> c \<in> set (dropWhile P s)"
  by (induction s) auto

lemma trim_keeps: "c \<in> set s \<Longrightarrow> \<not> isWhiteSpace c \<Longrightarrow> c \<in> set (trim s)"
  by (simp add: trim_def dropWhile_keeps)

lemma stringToNumber_text:
  assumes "functionText s"
  shows "stringToNumber s = None"
proof -
  from assms obtain c where c: "c \<in> set s" "c = 0x75 \<or> c = 0x6A"
    unfolding functionText_def by blast
  from c(2) have "\<not> isWhiteSpace c" and nd: "\<not> isDigit c"
    by (auto simp add: isWhiteSpace_def isDigit_def)
  with c(1) have "c \<in> set (trim s)"
    by (simp add: trim_keeps)
  with nd have "\<not> list_all isDigit (trim s)"
    by (auto simp add: list_all_iff)
  then show ?thesis
    by (simp add: stringToNumber_def Let_def)
qed

lemma jsPlus_text:
  "functionText t \<Longrightarrow> \<exists>s. jsPlus a (JSString t) = JSString s \<and> functionText s"
  by (cases a) (auto simp add: functionText_def)

lemma jsPlus_text_count:
  "functionText s \<Longrightarrow> \<exists>t. jsPlus (JSString s) b = JSString t \<and> functionText t"
  by (auto simp add: functionText_def)

lemma referencesLoop_text:
  assumes "\<forall>s. totalRefCount = JSString s \<longrightarrow> functionText s"
    and "fst (referencesLoop targetPath entries totalRefCount refFiles) = JSString t"
  shows "functionText t"
  using assms
proof (induction entries arbitrary: totalRefCount refFiles)
  case Nil
  then show ?case by simp
next
  case (Cons e entries)
  obtain sourcePath links where e: "e = (sourcePath, links)" by (cases e)
  show ?case
  proof (cases "getProperty links targetPath")
    case Undefined
    with Cons e show ?thesis by simp
  next
    case (Count count)
    have "\<forall>s. jsPlus totalRefCount (JSNumber count) = JSString s \<longrightarrow> functionText s"
      using Cons.prems(1) by (cases totalRefCount) (auto simp add: functionText_def)
    from Cons.IH [OF this] Cons.prems(2) e Count show ?thesis by simp
  next
    case (Inherited member)
    have "\<forall>s. jsPlus totalRefCount (JSString (inheritedToString member)) = JSString s
            \<longrightarrow> functionText s"
      using jsPlus_text [OF inheritedToString_text, of totalRefCount member] by auto
    from Cons.IH [OF this] Cons.prems(2) e Inherited show ?thesis by simp
  qed
qed

lemma getReferences_string:
  assumes "totalCount (getReferences index targetFile) = JSString s"
  shows "\<not> exceeds (totalCount (getReferences index targetFile)) k"
proof -
  have "fst (referencesLoop (file_path targetFile) (DAList.impl_of index) (JSNumber 0) [])
      = JSString s"
    using assms by (simp add: getReferences_def Let_def split: prod.splits)
  then have "functionText s"
    by (intro referencesLoop_text [of "JSNumber 0"]) simp_all
  then show ?thesis
    by (simp add: assms stringToNumber_text)
qed

lemma ex_index3_entries:
  "DAList.impl_of ex_index3 =
     [(js ''third.md'', [js ''x.png'' \<mapsto> 1]), (js ''other.md'', [js ''A/B/C/file.png'' \<mapsto> 1]),
      (js ''note.md'', [js ''A/B/C/file.png'' \<mapsto> 2])]"
  by (simp add: ex_index3_def DAList.update.rep_eq DAList.empty.rep_eq js_def)

lemma ex_file_own: "file_path ex_file \<notin> set objectPrototype"
  by (simp add: ex_file_def objectPrototype_def js_def)

lemma ex_index3_references:
  "getReferences ex_index3 ex_file
     = \<lparr>totalCount = JSNumber 3, fileCount = 2, files = [js ''other.md'', js ''note.md'']\<rparr>"
  unfolding getReferences_def Let_def
    referencesLoop_eq [OF ex_file_own, of "DAList.impl_of ex_index3" 0 "[]"]
  by (simp add: ex_index3_entries ex_file_def js_def)

lemma ex_index_member_entries:
  "DAList.impl_of ex_index_member =
     [(js ''note.md'', [js ''constructor'' \<mapsto> 2]), (js ''other.md'', [js ''x.png'' \<mapsto> 1])]"
  by (simp add: ex_index_member_def DAList.update.rep_eq DAList.empty.rep_eq js_def)

lemma ex_index_member_references:
  "getReferences ex_index_member ex_member
     = \<lparr>totalCount = JSString (js ''2function Object() { [native code] }''), fileCount = 2,
        files = [js ''note.md'', js ''other.md'']\<rparr>"
  by (simp add: getReferences_def ex_index_member_entries ex_member_def getProperty_def
      objectPrototype_def inheritedToString_def numberToString.simps js_def)

lemma ex_index_member_documents:
  "referencingDocuments ex_index_member (js ''constructor'') = {js ''note.md''}"
  unfolding referencing_set [symmetric] ex_index_member_entries
  by (simp add: js_def)

text \<open>
  C6. Reference Counter, at a target whose path is the name of a member that plain
  objects inherit. In \<open>ex_index_member\<close> the file \<open>constructor\<close> is referenced from one
  source document, \<open>note.md\<close>, with two occurrences; \<open>getReferences\<close> returns
  \<open>fileCount = 2\<close>, the path of \<open>other.md\<close> among \<open>files\<close>, and for \<open>totalCount\<close> a string
  in place of the number 2: the test \<open>count !== undefined\<close> takes the inherited
  \<open>constructor\<close> of the object of \<open>other.md\<close> for a recorded count.
\<close>

theorem getReferences_counts_inherited:
  "referencingDocuments ex_index_member (file_path ex_member) = {js ''note.md''}
   \<and> occurrences ex_index_member (file_path ex_member) (js ''note.md'') = 2
   \<and> getReferences ex_index_member ex_member
     = \<lparr>totalCount = JSString (js ''2function Object() { [native code] }''), fileCount = 2,
        files = [js ''note.md'', js ''other.md'']\<rparr>"
proof -
  have p: "file_path ex_member = js ''constructor''"
    by (simp add: ex_member_def)
  have "occurrences ex_index_member (js ''constructor'') (js ''note.md'') = 2"
    by (simp add: occurrences_def DAList.lookup.rep_eq ex_index_member_entries js_def)
  with ex_index_member_documents ex_index_member_references show ?thesis
    unfolding p by (intro conjI)
qed

section \<open>Deletion Orchestrator\<close>

subsection \<open>The host application\<close>

text \<open>An editor position \<open>{line, ch}\<close> and the object \<open>getLinkUnderCursor\<close> returns.\<close>

record position =
  line :: nat
  ch :: nat

record linkInfo =
  linkText :: jsstring
  link_start :: position
  link_end :: position

text \<open>
  The value a failed deletion throws: an object whose \<open>message\<close> is a string, or is
  absent (\<open>None\<close>).
\<close>

datatype jserror = JsError (message: "jsstring option")

text \<open>
  The collaborators, over a vault of type \<open>'v\<close> and an editor document of type \<open>'d\<close>.
  A file handle is its path. \<open>vault.delete\<close> and \<open>vault.trash\<close> may throw: they return
  the thrown value, if any, and the vault they leave. The editor returns normally.
\<close>

record ('v, 'd) host =
  getFirstLinkpathDest :: "'v \<Rightarrow> jsstring \<Rightarrow> jsstring \<Rightarrow> tfile option"
  resolvedLinks :: "'v \<Rightarrow> resolvedLinks"
  getAbstractFileByPath :: "'v \<Rightarrow> jsstring \<Rightarrow> jsstring option"
  vault_delete :: "jsstring \<Rightarrow> 'v \<Rightarrow> jserror option \<times> 'v"
  vault_trash :: "jsstring \<Rightarrow> bool \<Rightarrow> 'v \<Rightarrow> jserror option \<times> 'v"
  editor_getValue :: "'d \<Rightarrow> jsstring"
  editor_replaceRange :: "position \<Rightarrow> position \<Rightarrow> 'd \<Rightarrow> 'd"

text \<open>
  The notices the plugin shows, by their template:
  \<^item> \<open>NoticeNotFound linkText\<close>: the attachment file was not found;
  \<^item> \<open>NoticeSameNote n\<close>: this note still references the file at other places (\<open>n\<close>
    places), only the current link is removed;
  \<^item> \<open>NoticeMultiRef n\<close>: the file is referenced at several places (\<open>n\<close> places), only the
    current link is removed;
  \<^item> \<open>NoticeCascade n names\<close>: \<open>n\<close> empty folders were removed along, with their names
    (joined by newlines in the message);
  \<^item> \<open>NoticeDeleted name\<close>: the attachment was deleted;
  \<^item> \<open>NoticeBusy\<close>: the file is in use by another program, close it and try again;
  \<^item> \<open>NoticeFailed\<close>: the deletion failed, see the console log.
\<close>

datatype notice =
  NoticeNotFound jsstring
| NoticeSameNote jsvalue
| NoticeMultiRef jsvalue
| NoticeCascade nat "jsstring list"
| NoticeDeleted jsstring
| NoticeBusy
| NoticeFailed

text \<open>What the plugin asks of its collaborators, in the order it asks.\<close>

datatype event =
  VaultDelete jsstring
| VaultTrash jsstring bool
| ReplaceRange position position
| Notice notice
| ConsoleError jserror

text \<open>
  The state a request runs in: the lock \<open>this.isProcessing\<close>, \<open>this.settings\<close>, the
  vault, the editor's document and the events so far.
\<close>

record ('v, 'd) plugin =
  isProcessing :: bool
  settings :: settings
  vault :: 'v
  doc :: 'd
  trace :: "event list"

definition emit :: "event \<Rightarrow> ('v, 'd) plugin \<Rightarrow> ('v, 'd) plugin" where
  "emit e s = s\<lparr>trace := trace s @ [e]\<rparr>"

definition onload :: "settings \<Rightarrow> 'v \<Rightarrow> 'd \<Rightarrow> ('v, 'd) plugin" where
  "onload st v d = \<lparr>isProcessing = False, settings = st, vault = v, doc = d, trace = []\<rparr>"

subsection \<open>\<open>performDeletion\<close>\<close>

definition performDeletion ::
  "('v, 'd) host \<Rightarrow> jsstring \<Rightarrow> ('v, 'd) plugin \<Rightarrow> jserror option \<times> ('v, 'd) plugin" where
  "performDeletion h file s =
     (if trashStrategy (settings s) = js ''permanent'' then
        (let (thrown, v) = vault_delete h file (vault s)
         in (thrown, (emit (VaultDelete file) s)\<lparr>vault := v\<rparr>))
      else
        (let useSystemTrash = (trashStrategy (settings s) = js ''system'');
             (thrown, v) = vault_trash h file useSystemTrash (vault s)
         in (thrown, (emit (VaultTrash file useSystemTrash) s)\<lparr>vault := v\<rparr>)))"

subsection \<open>\<open>executeDelete\<close>\<close>

text \<open>The variables \<open>executeDelete\<close> closes over.\<close>

record deletion =
  targetFile :: tfile
  foldersToDelete :: "tfolder list"
  span_start :: position
  span_end :: position

text \<open>
  \<open>String.prototype.toLowerCase\<close> on the letters A to Z. Other code units are left as
  they are; no other code point has \<open>b\<close>, \<open>u\<close>, \<open>s\<close> or \<open>y\<close> in its lower case, so the
  test \<open>toLowerCase().includes("busy")\<close> is the one of the source.
\<close>

definition toLowerCase :: "jsstring \<Rightarrow> jsstring" where
  "toLowerCase s = map (\<lambda>c. if 0x41 \<le> c \<and> c \<le> 0x5A then c + 0x20 else c) s"

text \<open>A statement sequence inside \<open>try\<close>: the rest runs when nothing was thrown.\<close>

definition andThen ::
  "jserror option \<times> 's \<Rightarrow> ('s \<Rightarrow> jserror option \<times> 's) \<Rightarrow> jserror option \<times> 's" where
  "andThen r rest = (case r of (Some err, s) \<Rightarrow> (Some err, s) | (None, s) \<Rightarrow> rest s)"

text \<open>The \<open>for\<close> loop over \<open>foldersToDelete\<close>.\<close>

fun cascadeDelete ::
  "('v, 'd) host \<Rightarrow> tfolder list \<Rightarrow> ('v, 'd) plugin \<Rightarrow> jserror option \<times> ('v, 'd) plugin" where
  "cascadeDelete h [] s = (None, s)"
| "cascadeDelete h (folder # folders) s =
     (case getAbstractFileByPath h (vault s) (folder_path folder) of
        None \<Rightarrow> cascadeDelete h folders s
      | Some f \<Rightarrow> andThen (performDeletion h f s) (cascadeDelete h folders))"

text \<open>The \<open>try\<close> block.\<close>

definition tryBlock ::
  "('v, 'd) host \<Rightarrow> deletion \<Rightarrow> bool \<Rightarrow> ('v, 'd) plugin \<Rightarrow> jserror option \<times> ('v, 'd) plugin" where
  "tryBlock h c deleteFolders s =
     andThen (performDeletion h (file_path (targetFile c)) s) (\<lambda>s.
       let currentContent = editor_getValue h (doc s);
           s = (if length currentContent \<ge> 0
                then (emit (ReplaceRange (span_start c) (span_end c)) s)
                       \<lparr>doc := editor_replaceRange h (span_start c) (span_end c) (doc s)\<rparr>
                else s)
       in if deleteFolders \<and> length (foldersToDelete c) > 0 then
            (let folderNames = map folder_name (foldersToDelete c)
             in andThen (cascadeDelete h (foldersToDelete c) s) (\<lambda>s.
                  (None, emit (Notice (NoticeCascade (length (foldersToDelete c)) folderNames)) s)))
          else (None, emit (Notice (NoticeDeleted (file_name (targetFile c)))) s))"

text \<open>The \<open>catch\<close> block.\<close>

definition catchBlock :: "jserror \<Rightarrow> ('v, 'd) plugin \<Rightarrow> ('v, 'd) plugin" where
  "catchBlock err s =
     (let s = emit (ConsoleError err) s;
          errorMessage = (case message err of None \<Rightarrow> [] | Some m \<Rightarrow> m)
      in if includes_js errorMessage (js ''EBUSY'')
            \<or> includes_js (toLowerCase errorMessage) (js ''busy'')
         then emit (Notice NoticeBusy) s
         else emit (Notice NoticeFailed) s)"

definition executeDelete ::
  "('v, 'd) host \<Rightarrow> deletion \<Rightarrow> bool \<Rightarrow> ('v, 'd) plugin \<Rightarrow> ('v, 'd) plugin" where
  "executeDelete h c deleteFolders s =
     (if isProcessing s then s
      else
        (let s = s\<lparr>isProcessing := True\<rparr>;
             s = (case tryBlock h c deleteFolders s of
                    (None, s) \<Rightarrow> s
                  | (Some err, s) \<Rightarrow> catchBlock err s)
         in s\<lparr>isProcessing := False\<rparr>))"

subsection \<open>\<open>processDeleteRequest\<close>\<close>

text \<open>
  How a request ends: it returned, or it opened the confirmation modal, whose callback
  closes over the deletion.
\<close>

datatype outcome = Returned | ModalOpened deletion


text \<open>The decision logic at the end of \<open>processDeleteRequest\<close>.\<close>

definition decisionLogic ::
  "('v, 'd) host \<Rightarrow> deletion \<Rightarrow> ('v, 'd) plugin \<Rightarrow> outcome \<times> ('v, 'd) plugin" where
  "decisionLogic h c s =
     (if \<not> enableCascade (settings s) \<or> length (foldersToDelete c) = 0 then
        (Returned, executeDelete h c False s)
      else if \<not> enableWarning (settings s) then
        (Returned, executeDelete h c True s)
      else if int (length (foldersToDelete c)) < warningThreshold (settings s) then
        (Returned, executeDelete h c True s)
      else (ModalOpened c, s))"

definition processDeleteRequest ::
  "('v, 'd) host \<Rightarrow> linkInfo \<Rightarrow> tfile \<Rightarrow> ('v, 'd) plugin \<Rightarrow> outcome \<times> ('v, 'd) plugin" where
  "processDeleteRequest h info currentNoteFile s =
     (if isProcessing s then (Returned, s)
      else
        (case getFirstLinkpathDest h (vault s) (linkText info) (file_path currentNoteFile) of
           None \<Rightarrow>
             (let s = emit (Notice (NoticeNotFound (linkText info))) s;
                  s = (emit (ReplaceRange (link_start info) (link_end info)) s)
                        \<lparr>doc := editor_replaceRange h (link_start info) (link_end info) (doc s)\<rparr>
              in (Returned, s))
         | Some target \<Rightarrow>
             (let refs = getReferences (resolvedLinks h (vault s)) target
              in if exceeds (totalCount refs) 1 then
                   (let s = (emit (ReplaceRange (link_start info) (link_end info)) s)
                          \<lparr>doc := editor_replaceRange h (link_start info) (link_end info) (doc s)\<rparr>
                    in if fileCount refs = 1 \<and> file_path currentNoteFile \<in> set (files refs)
                       then (Returned, emit (Notice (NoticeSameNote (totalCount refs))) s)
                       else (Returned, emit (Notice (NoticeMultiRef (totalCount refs))) s))
                 else
                   decisionLogic h
                     \<lparr>targetFile = target,
                      foldersToDelete = calculateCascadeFolders (settings s) target,
                      span_start = link_start info, span_end = link_end info\<rparr> s)))"


text \<open>The command \<open>performDeletion\<close> issues for a file under the given settings.\<close>

definition deletionEvent :: "settings \<Rightarrow> jsstring \<Rightarrow> event" where
  "deletionEvent st file =
     (if trashStrategy st = js ''permanent'' then VaultDelete file
      else VaultTrash file (trashStrategy st = js ''system''))"

definition isDeletionEvent :: "event \<Rightarrow> bool" where
  "isDeletionEvent e = (case e of VaultDelete f \<Rightarrow> True | VaultTrash f b \<Rightarrow> True | _ \<Rightarrow> False)"

definition errorMessage :: "jserror \<Rightarrow> jsstring" where
  "errorMessage err = (case message err of None \<Rightarrow> [] | Some m \<Rightarrow> m)"

lemma performDeletion_frame:
  assumes "performDeletion h file s = (r, s')"
  shows "doc s' = doc s" and "isProcessing s' = isProcessing s" and "settings s' = settings s"
    and "trace s' = trace s @ [deletionEvent (settings s) file]"
  using assms
  by (auto simp add: performDeletion_def deletionEvent_def emit_def Let_def
      split: if_splits prod.splits)

lemma performDeletion_lock:
  "performDeletion h file (s\<lparr>isProcessing := b\<rparr>) =
     (fst (performDeletion h file s), (snd (performDeletion h file s))\<lparr>isProcessing := b\<rparr>)"
  by (simp add: performDeletion_def emit_def Let_def split: prod.splits)

lemma cascadeDelete_frame:
  "cascadeDelete h folders s = (r, s') \<Longrightarrow>
   doc s' = doc s \<and> isProcessing s' = isProcessing s \<and> settings s' = settings s
   \<and> (\<exists>es. trace s' = trace s @ es \<and> (\<forall>e \<in> set es. isDeletionEvent e))"
proof (induction folders arbitrary: s)
  case Nil
  then show ?case by simp
next
  case (Cons folder folders)
  show ?case
  proof (cases "getAbstractFileByPath h (vault s) (folder_path folder)")
    case None
    with Cons.prems have "cascadeDelete h folders s = (r, s')" by simp
    from Cons.IH [OF this] show ?thesis .
  next
    case (Some f)
    obtain r1 s1 where p: "performDeletion h f s = (r1, s1)" by (cases "performDeletion h f s")
    note fr = performDeletion_frame [OF p]
    have ev: "isDeletionEvent (deletionEvent (settings s) f)"
      by (simp add: isDeletionEvent_def deletionEvent_def)
    show ?thesis
    proof (cases r1)
      case None
      with Cons.prems Some p have "cascadeDelete h folders s1 = (r, s')"
        by (simp add: andThen_def)
      from Cons.IH [OF this] fr ev show ?thesis by auto
    next
      case (Some err)
      with Cons.prems \<open>getAbstractFileByPath h (vault s) (folder_path folder) = Some f\<close> p
      have "s' = s1" by (simp add: andThen_def)
      with fr ev show ?thesis by auto
    qed
  qed
qed

lemma catchBlock_frame:
  "doc (catchBlock err s) = doc s" "isProcessing (catchBlock err s) = isProcessing s"
  "settings (catchBlock err s) = settings s" "vault (catchBlock err s) = vault s"
  "trace (catchBlock err s) = trace s @
     [ConsoleError err,
      Notice (if includes_js (errorMessage err) (js ''EBUSY'')
                 \<or> includes_js (toLowerCase (errorMessage err)) (js ''busy'')
              then NoticeBusy else NoticeFailed)]"
  by (simp_all add: catchBlock_def emit_def Let_def errorMessage_def)



lemma executeDelete_thrown:
  assumes unlocked: "\<not> isProcessing s"
    and thrown: "fst (performDeletion h (file_path (targetFile c)) s) = Some err"
  shows "doc (executeDelete h c deleteFolders s) = doc s"
    and "trace (executeDelete h c deleteFolders s) = trace s @
       [deletionEvent (settings s) (file_path (targetFile c)), ConsoleError err,
        Notice (if includes_js (errorMessage err) (js ''EBUSY'')
                   \<or> includes_js (toLowerCase (errorMessage err)) (js ''busy'')
                then NoticeBusy else NoticeFailed)]"
proof -
  let ?p = "file_path (targetFile c)"
  obtain s1 where p: "performDeletion h ?p s = (Some err, s1)"
    using thrown by (cases "performDeletion h ?p s") auto
  note fr = performDeletion_frame [OF p]
  have t: "tryBlock h c deleteFolders (s\<lparr>isProcessing := True\<rparr>)
      = (Some err, s1\<lparr>isProcessing := True\<rparr>)"
    by (simp add: tryBlock_def performDeletion_lock p andThen_def)
  have e: "executeDelete h c deleteFolders s
      = (catchBlock err (s1\<lparr>isProcessing := True\<rparr>))\<lparr>isProcessing := False\<rparr>"
    using unlocked by (simp add: executeDelete_def t)
  show "doc (executeDelete h c deleteFolders s) = doc s"
    unfolding e using fr by (simp add: catchBlock_frame)
  show "trace (executeDelete h c deleteFolders s) = trace s @
       [deletionEvent (settings s) (file_path (targetFile c)), ConsoleError err,
        Notice (if includes_js (errorMessage err) (js ''EBUSY'')
                   \<or> includes_js (toLowerCase (errorMessage err)) (js ''busy'')
                then NoticeBusy else NoticeFailed)]"
    unfolding e using fr by (simp add: catchBlock_frame)
qed

lemma executeDelete_deleted:
  assumes unlocked: "\<not> isProcessing s"
    and deleted: "fst (performDeletion h (file_path (targetFile c)) s) = None"
  shows "doc (executeDelete h c deleteFolders s)
           = editor_replaceRange h (span_start c) (span_end c) (doc s)"
    and "\<exists>es. trace (executeDelete h c deleteFolders s) = trace s @
           [deletionEvent (settings s) (file_path (targetFile c)),
            ReplaceRange (span_start c) (span_end c)] @ es"
proof -
  let ?p = "file_path (targetFile c)"
  obtain s1 where p: "performDeletion h ?p s = (None, s1)"
    using deleted by (cases "performDeletion h ?p s") auto
  note fr = performDeletion_frame [OF p]
  define s2 where "s2 = (emit (ReplaceRange (span_start c) (span_end c)) (s1\<lparr>isProcessing := True\<rparr>))
       \<lparr>doc := editor_replaceRange h (span_start c) (span_end c) (doc s1)\<rparr>"
  have s2: "doc s2 = editor_replaceRange h (span_start c) (span_end c) (doc s)"
    "trace s2 = trace s @ [deletionEvent (settings s) ?p, ReplaceRange (span_start c) (span_end c)]"
    using fr by (simp_all add: s2_def emit_def)
  obtain r s3 where cd: "cascadeDelete h (foldersToDelete c) s2 = (r, s3)"
    by (cases "cascadeDelete h (foldersToDelete c) s2")
  from cascadeDelete_frame [OF cd] obtain es where
    s3: "doc s3 = doc s2" "trace s3 = trace s2 @ es"
    by auto
  have t: "tryBlock h c deleteFolders (s\<lparr>isProcessing := True\<rparr>) =
      (if deleteFolders \<and> length (foldersToDelete c) > 0 then
         (case r of
            None \<Rightarrow> (None, emit (Notice (NoticeCascade (length (foldersToDelete c))
                                 (map folder_name (foldersToDelete c)))) s3)
          | Some err \<Rightarrow> (Some err, s3))
       else (None, emit (Notice (NoticeDeleted (file_name (targetFile c)))) s2))"
    by (simp add: tryBlock_def performDeletion_lock p andThen_def Let_def s2_def [symmetric] cd
        split: option.splits)
  have e: "executeDelete h c deleteFolders s =
      (case tryBlock h c deleteFolders (s\<lparr>isProcessing := True\<rparr>) of
         (None, s) \<Rightarrow> s | (Some err, s) \<Rightarrow> catchBlock err s)\<lparr>isProcessing := False\<rparr>"
    using unlocked by (simp add: executeDelete_def Let_def)
  show "doc (executeDelete h c deleteFolders s)
           = editor_replaceRange h (span_start c) (span_end c) (doc s)"
    unfolding e t using s2 s3
    by (simp add: catchBlock_frame emit_def split: option.splits)
  show "\<exists>es. trace (executeDelete h c deleteFolders s) = trace s @
           [deletionEvent (settings s) (file_path (targetFile c)),
            ReplaceRange (span_start c) (span_end c)] @ es"
    unfolding e t using s2 s3
    by (simp add: catchBlock_frame emit_def split: option.splits)
qed

subsection \<open>An example host\<close>

text \<open>
  A vault that is the list of the paths it holds, where deleting one of the \<open>locked\<close>
  paths throws a busy error, and an editor whose document is one line of text.
\<close>

definition ex_busy :: jserror where
  "ex_busy = JsError (Some (js ''EBUSY: resource busy or locked''))"

definition ex_remove :: "jsstring list \<Rightarrow> jsstring \<Rightarrow> jsstring list \<Rightarrow> jserror option \<times> jsstring list" where
  "ex_remove locked file v =
     (if file \<in> set locked then (Some ex_busy, v) else (None, removeAll file v))"

definition ex_host :: "resolvedLinks \<Rightarrow> jsstring list \<Rightarrow> (jsstring list, jsstring) host" where
  "ex_host index locked =
     \<lparr>getFirstLinkpathDest =
        (\<lambda>v link source. if link = js ''file.png'' \<and> file_path ex_file \<in> set v
                         then Some ex_file else None),
      resolvedLinks = (\<lambda>v. index),
      getAbstractFileByPath = (\<lambda>v p. if p \<in> set v then Some p else None),
      vault_delete = (\<lambda>file v. ex_remove locked file v),
      vault_trash = (\<lambda>file useSystemTrash v. ex_remove locked file v),
      editor_getValue = (\<lambda>d. d),
      editor_replaceRange = (\<lambda>a b d. take (ch a) d @ drop (ch b) d)\<rparr>"

definition ex_vault :: "jsstring list" where
  "ex_vault = [js ''A'', js ''A/B'', js ''A/B/C'', js ''A/B/C/file.png'', js ''note.md'']"

definition ex_doc :: jsstring where
  "ex_doc = js ''see ![[file.png]] here''"

definition ex_info :: linkInfo where
  "ex_info = \<lparr>linkText = js ''file.png'', link_start = \<lparr>line = 0, ch = 4\<rparr>,
               link_end = \<lparr>line = 0, ch = 17\<rparr>\<rparr>"

definition ex_note :: tfile where
  "ex_note = \<lparr>file_name = js ''note.md'', file_path = js ''note.md'', file_parent = Some ex_root\<rparr>"

definition ex_deletion :: deletion where
  "ex_deletion = \<lparr>targetFile = ex_file, foldersToDelete = [ex_C, ex_B],
                   span_start = \<lparr>line = 0, ch = 4\<rparr>, span_end = \<lparr>line = 0, ch = 17\<rparr>\<rparr>"

definition ex_index :: resolvedLinks where
  "ex_index = DAList.update (js ''note.md'') [js ''A/B/C/file.png'' \<mapsto> 1] DAList.empty"

definition ex_state :: "(jsstring list, jsstring) plugin" where
  "ex_state = onload DEFAULT_SETTINGS ex_vault ex_doc"

text \<open>
  C1. Rollback by ordering. From an unlocked state: when the physical deletion of the
  target throws, the document is as before, the only commands are the target's deletion,
  the console log and one notice (the busy one when the message contains \<open>EBUSY\<close> or, in
  lower case, \<open>busy\<close>; the generic one otherwise), so no span is removed and no folder
  deletion is issued; and whenever a span removal is among the commands of the run, the
  target's deletion returned normally and the removal comes right after it.
\<close>

theorem executeDelete_rollback_by_ordering:
  assumes "\<not> isProcessing s"
  shows "(let s' = executeDelete h c deleteFolders s;
              file = file_path (targetFile c);
              new = drop (length (trace s)) (trace s')
          in (\<forall>err. fst (performDeletion h file s) = Some err \<longrightarrow>
                doc s' = doc s
                \<and> new = [deletionEvent (settings s) file, ConsoleError err,
                         Notice (if includes_js (errorMessage err) (js ''EBUSY'')
                                    \<or> includes_js (toLowerCase (errorMessage err)) (js ''busy'')
                                 then NoticeBusy else NoticeFailed)])
             \<and> (\<forall>a b. ReplaceRange a b \<in> set new \<longrightarrow>
                  fst (performDeletion h file s) = None
                  \<and> take 2 new = [deletionEvent (settings s) file,
                                  ReplaceRange (span_start c) (span_end c)]))"
proof -
  let ?file = "file_path (targetFile c)"
  let ?s' = "executeDelete h c deleteFolders s"
  let ?new = "drop (length (trace s)) (trace ?s')"
  have thrown: "doc ?s' = doc s
      \<and> ?new = [deletionEvent (settings s) ?file, ConsoleError err,
                Notice (if includes_js (errorMessage err) (js ''EBUSY'')
                           \<or> includes_js (toLowerCase (errorMessage err)) (js ''busy'')
                        then NoticeBusy else NoticeFailed)]"
    if "fst (performDeletion h ?file s) = Some err" for err
    using executeDelete_thrown [OF assms that, of deleteFolders] by simp
  have removed: "fst (performDeletion h ?file s) = None
      \<and> take 2 ?new = [deletionEvent (settings s) ?file, ReplaceRange (span_start c) (span_end c)]"
    if r: "ReplaceRange a b \<in> set ?new" for a b
  proof (cases "fst (performDeletion h ?file s)")
    case None
    from executeDelete_deleted(2) [OF assms None, of deleteFolders]
    obtain es where "trace ?s' = trace s @
           [deletionEvent (settings s) ?file, ReplaceRange (span_start c) (span_end c)] @ es"
      by blast
    then have "take 2 ?new = [deletionEvent (settings s) ?file, ReplaceRange (span_start c) (span_end c)]"
      by simp
    with None show ?thesis by simp
  next
    case (Some err)
    from thrown [OF Some] r have False
      by (auto simp add: deletionEvent_def split: if_splits)
    then show ?thesis ..
  qed
  from thrown removed show ?thesis
    unfolding Let_def by blast
qed

text \<open>
  The theorem at the example host with the target locked: the run from the fresh state
  leaves the line as it was and shows the busy notice.
\<close>

theorem executeDelete_rollback_by_ordering_witness:
  "\<not> isProcessing ex_state
   \<and> fst (performDeletion (ex_host ex_index [js ''A/B/C/file.png'']) (js ''A/B/C/file.png'') ex_state)
       = Some ex_busy
   \<and> doc (executeDelete (ex_host ex_index [js ''A/B/C/file.png'']) ex_deletion True ex_state) = ex_doc
   \<and> trace (executeDelete (ex_host ex_index [js ''A/B/C/file.png'']) ex_deletion True ex_state)
       = [VaultTrash (js ''A/B/C/file.png'') True, ConsoleError ex_busy, Notice NoticeBusy]"
proof -
  let ?h = "ex_host ex_index [js ''A/B/C/file.png'']"
  have unlocked: "\<not> isProcessing ex_state"
    by (simp add: ex_state_def onload_def)
  have target: "file_path (targetFile ex_deletion) = js ''A/B/C/file.png''"
    by (simp add: ex_deletion_def ex_file_def)
  have thrown: "fst (performDeletion ?h (js ''A/B/C/file.png'') ex_state) = Some ex_busy"
    by code_simp
  have fresh: "trace ex_state = []" "doc ex_state = ex_doc"
    by (simp_all add: ex_state_def onload_def)
  have cmd: "deletionEvent (settings ex_state) (js ''A/B/C/file.png'')
      = VaultTrash (js ''A/B/C/file.png'') True"
    by code_simp
  have busy: "includes_js (errorMessage ex_busy) (js ''EBUSY'')"
    by code_simp
  note inst = executeDelete_rollback_by_ordering [OF unlocked, of ?h ex_deletion True,
      unfolded Let_def target]
  note branch = conjunct1 [OF inst, rule_format, OF thrown]
  from branch have "doc (executeDelete ?h ex_deletion True ex_state) = ex_doc"
    by (simp only: fresh)
  moreover from branch
  have "trace (executeDelete ?h ex_deletion True ex_state)
       = [VaultTrash (js ''A/B/C/file.png'') True, ConsoleError ex_busy, Notice NoticeBusy]"
    by (simp only: fresh cmd busy list.size drop_0 if_True simp_thms)
  ultimately show ?thesis
    using unlocked thrown by (intro conjI)
qed

subsection \<open>Confirmation Gate\<close>

text \<open>The gate in the words of the specification, on a plan and the settings.\<close>

datatype decision = FileOnlyDecision | ProceedSilently | ProceedWithConfirmation

definition decide :: "tfolder list \<Rightarrow> settings \<Rightarrow> decision" where
  "decide plan st =
     (if \<not> enableCascade st \<or> plan = [] then FileOnlyDecision
      else if \<not> enableWarning st then ProceedSilently
      else if int (length plan) < warningThreshold st then ProceedSilently
      else ProceedWithConfirmation)"

lemma executeDelete_file_only:
  assumes "\<not> isProcessing s"
  shows "filter isDeletionEvent (drop (length (trace s)) (trace (executeDelete h c False s)))
     = [deletionEvent (settings s) (file_path (targetFile c))]"
proof -
  let ?p = "file_path (targetFile c)"
  obtain r s1 where p: "performDeletion h ?p s = (r, s1)"
    by (cases "performDeletion h ?p s")
  note fr = performDeletion_frame [OF p]
  have ev: "isDeletionEvent (deletionEvent (settings s) ?p)"
    by (simp add: isDeletionEvent_def deletionEvent_def)
  show ?thesis
  proof (cases r)
    case None
    with assms p fr ev show ?thesis
      by (simp add: executeDelete_def tryBlock_def performDeletion_lock andThen_def Let_def
          emit_def isDeletionEvent_def)
  next
    case (Some err)
    with p have "fst (performDeletion h ?p s) = Some err" by simp
    from executeDelete_thrown(2) [OF assms this, of False] ev show ?thesis
      by (simp add: isDeletionEvent_def)
  qed
qed

text \<open>
  C3. Confirmation Gate: the decision logic of \<open>processDeleteRequest\<close> is the gate of the
  specification. With cascading disabled or an empty plan it runs \<open>executeDelete(false)\<close>,
  which issues the target's deletion and no other; otherwise with warnings disabled, or
  a plan shorter than \<open>warningThreshold\<close>, it runs \<open>executeDelete(true)\<close> without asking;
  otherwise it opens the modal and does nothing else. A plan as long as the threshold
  opens the modal, and the decision is the same for plans of the same length under the
  same settings.
\<close>

theorem decisionLogic_gate:
  "decisionLogic h c s =
     (case decide (foldersToDelete c) (settings s) of
        FileOnlyDecision \<Rightarrow> (Returned, executeDelete h c False s)
      | ProceedSilently \<Rightarrow> (Returned, executeDelete h c True s)
      | ProceedWithConfirmation \<Rightarrow> (ModalOpened c, s))
   \<and> (\<not> isProcessing s \<longrightarrow>
        filter isDeletionEvent (drop (length (trace s)) (trace (executeDelete h c False s)))
          = [deletionEvent (settings s) (file_path (targetFile c))])
   \<and> (enableCascade st \<and> plan \<noteq> [] \<and> enableWarning st
        \<and> int (length plan) = warningThreshold st
      \<longrightarrow> decide plan st = ProceedWithConfirmation)
   \<and> (length plan = length plan' \<longrightarrow> decide plan st = decide plan' st)"
proof (intro conjI impI)
  show "decisionLogic h c s =
     (case decide (foldersToDelete c) (settings s) of
        FileOnlyDecision \<Rightarrow> (Returned, executeDelete h c False s)
      | ProceedSilently \<Rightarrow> (Returned, executeDelete h c True s)
      | ProceedWithConfirmation \<Rightarrow> (ModalOpened c, s))"
    by (simp add: decisionLogic_def decide_def)
next
  assume "\<not> isProcessing s"
  then show "filter isDeletionEvent (drop (length (trace s)) (trace (executeDelete h c False s)))
          = [deletionEvent (settings s) (file_path (targetFile c))]"
    by (rule executeDelete_file_only)
next
  assume "enableCascade st \<and> plan \<noteq> [] \<and> enableWarning st
        \<and> int (length plan) = warningThreshold st"
  then show "decide plan st = ProceedWithConfirmation"
    by (simp add: decide_def)
next
  assume "length plan = length plan'"
  then show "decide plan st = decide plan' st"
    by (auto simp add: decide_def)
qed

text \<open>
  The theorem at the example: with the default threshold 3 the plan \<open>[C, B]\<close> is deleted
  without asking; with threshold 2 the modal opens.
\<close>

theorem decisionLogic_gate_witness:
  "decisionLogic (ex_host ex_index []) ex_deletion ex_state
     = (Returned, executeDelete (ex_host ex_index []) ex_deletion True ex_state)
   \<and> decisionLogic (ex_host ex_index []) ex_deletion
        (ex_state\<lparr>settings := DEFAULT_SETTINGS\<lparr>warningThreshold := 2\<rparr>\<rparr>)
     = (ModalOpened ex_deletion, ex_state\<lparr>settings := DEFAULT_SETTINGS\<lparr>warningThreshold := 2\<rparr>\<rparr>)
   \<and> decide [ex_C, ex_B] (DEFAULT_SETTINGS\<lparr>warningThreshold := 2\<rparr>) = ProceedWithConfirmation
   \<and> decide [ex_C, ex_B] DEFAULT_SETTINGS = decide [ex_B, ex_A] DEFAULT_SETTINGS
   \<and> filter isDeletionEvent (trace (executeDelete (ex_host ex_index []) ex_deletion False ex_state))
        = [VaultTrash (js ''A/B/C/file.png'') True]"
proof -
  let ?h = "ex_host ex_index []"
  let ?st2 = "DEFAULT_SETTINGS\<lparr>warningThreshold := 2\<rparr>"
  let ?s2 = "ex_state\<lparr>settings := ?st2\<rparr>"
  have plan: "foldersToDelete ex_deletion = [ex_C, ex_B]"
    by (simp add: ex_deletion_def)
  have st: "settings ex_state = DEFAULT_SETTINGS" "settings ?s2 = ?st2"
    by (simp_all add: ex_state_def onload_def)
  have d3: "decide [ex_C, ex_B] DEFAULT_SETTINGS = ProceedSilently"
    by (simp add: decide_def DEFAULT_SETTINGS_def)
  have pre: "enableCascade ?st2 \<and> [ex_C, ex_B] \<noteq> [] \<and> enableWarning ?st2
        \<and> int (length [ex_C, ex_B]) = warningThreshold ?st2"
    by (simp add: DEFAULT_SETTINGS_def)
  have len: "length [ex_C, ex_B] = length [ex_B, ex_A]"
    by simp
  have unlocked: "\<not> isProcessing ex_state" and fresh: "trace ex_state = []"
    by (simp_all add: ex_state_def onload_def)
  have cmd: "deletionEvent (settings ex_state) (file_path (targetFile ex_deletion))
      = VaultTrash (js ''A/B/C/file.png'') True"
    by code_simp
  note a = decisionLogic_gate [of ?h ex_deletion ex_state ?st2 "[ex_C, ex_B]" "[ex_B, ex_A]"]
  note b = decisionLogic_gate [of ?h ex_deletion ?s2 DEFAULT_SETTINGS "[ex_C, ex_B]" "[ex_B, ex_A]"]
  from conjunct1 [OF a]
  have one: "decisionLogic ?h ex_deletion ex_state = (Returned, executeDelete ?h ex_deletion True ex_state)"
    by (simp only: plan st d3 decision.case)
  have d2: "decide [ex_C, ex_B] ?st2 = ProceedWithConfirmation"
    using conjunct1 [OF conjunct2 [OF conjunct2 [OF a]]] pre by (rule mp)
  from conjunct1 [OF b]
  have two: "decisionLogic ?h ex_deletion ?s2 = (ModalOpened ex_deletion, ?s2)"
    by (simp only: plan st d2 decision.case)
  have four: "decide [ex_C, ex_B] DEFAULT_SETTINGS = decide [ex_B, ex_A] DEFAULT_SETTINGS"
    using conjunct2 [OF conjunct2 [OF conjunct2 [OF b]]] len by (rule mp)
  have five: "filter isDeletionEvent (trace (executeDelete ?h ex_deletion False ex_state))
        = [VaultTrash (js ''A/B/C/file.png'') True]"
    using conjunct1 [OF conjunct2 [OF a], rule_format, OF unlocked]
    by (simp only: fresh cmd list.size drop_0)
  from one two d2 four five show ?thesis
    by (intro conjI)
qed

subsection \<open>The early exits of \<open>processDeleteRequest\<close>\<close>


lemma processDeleteRequest_not_found:
  assumes "\<not> isProcessing s"
    and "getFirstLinkpathDest h (vault s) (linkText info) (file_path note) = None"
  shows "processDeleteRequest h info note s =
     (Returned,
      s\<lparr>doc := editor_replaceRange h (link_start info) (link_end info) (doc s),
        trace := trace s @ [Notice (NoticeNotFound (linkText info)),
                            ReplaceRange (link_start info) (link_end info)]\<rparr>)"
  using assms by (simp add: processDeleteRequest_def emit_def Let_def)

lemma processDeleteRequest_multi:
  assumes "\<not> isProcessing s"
    and "getFirstLinkpathDest h (vault s) (linkText info) (file_path note) = Some target"
    and "exceeds (totalCount (getReferences (resolvedLinks h (vault s)) target)) 1"
  shows "processDeleteRequest h info note s =
     (let refs = getReferences (resolvedLinks h (vault s)) target
      in (Returned,
          s\<lparr>doc := editor_replaceRange h (link_start info) (link_end info) (doc s),
            trace := trace s @
              [ReplaceRange (link_start info) (link_end info),
               Notice (if fileCount refs = 1 \<and> file_path note \<in> set (files refs)
                       then NoticeSameNote (totalCount refs)
                       else NoticeMultiRef (totalCount refs))]\<rparr>))"
  using assms by (simp add: processDeleteRequest_def emit_def Let_def)

lemma processDeleteRequest_single:
  assumes "\<not> isProcessing s"
    and "getFirstLinkpathDest h (vault s) (linkText info) (file_path note) = Some target"
    and "\<not> exceeds (totalCount (getReferences (resolvedLinks h (vault s)) target)) 1"
  shows "processDeleteRequest h info note s =
     decisionLogic h
       \<lparr>targetFile = target, foldersToDelete = calculateCascadeFolders (settings s) target,
        span_start = link_start info, span_end = link_end info\<rparr> s"
  using assms by (simp add: processDeleteRequest_def Let_def)

text \<open>
  C8. LinkNotFound: when the link text resolves to no file, the request shows the
  not-found notice and removes the link's span; these are its only commands, so no
  deletion of a file or folder is issued, and the vault and the lock are as before.
\<close>

theorem processDeleteRequest_link_not_found:
  assumes "\<not> isProcessing s"
    and "getFirstLinkpathDest h (vault s) (linkText info) (file_path note) = None"
  shows "(let (result, s') = processDeleteRequest h info note s
          in result = Returned
             \<and> doc s' = editor_replaceRange h (link_start info) (link_end info) (doc s)
             \<and> drop (length (trace s)) (trace s')
                 = [Notice (NoticeNotFound (linkText info)),
                    ReplaceRange (link_start info) (link_end info)]
             \<and> filter isDeletionEvent (drop (length (trace s)) (trace s')) = []
             \<and> vault s' = vault s
             \<and> isProcessing s' = isProcessing s)"
  by (simp add: processDeleteRequest_not_found [OF assms] isDeletionEvent_def)

text \<open>
  The theorem at the example: a link to \<open>gone.png\<close>, which the example host resolves to
  nothing.
\<close>

definition ex_info_gone :: linkInfo where
  "ex_info_gone = \<lparr>linkText = js ''gone.png'', link_start = \<lparr>line = 0, ch = 4\<rparr>,
                    link_end = \<lparr>line = 0, ch = 17\<rparr>\<rparr>"

theorem processDeleteRequest_link_not_found_witness:
  "\<not> isProcessing ex_state
   \<and> getFirstLinkpathDest (ex_host ex_index []) (vault ex_state) (linkText ex_info_gone)
        (file_path ex_note) = None
   \<and> vault (snd (processDeleteRequest (ex_host ex_index []) ex_info_gone ex_note ex_state)) = ex_vault
   \<and> doc (snd (processDeleteRequest (ex_host ex_index []) ex_info_gone ex_note ex_state))
        = js ''see  here''
   \<and> trace (snd (processDeleteRequest (ex_host ex_index []) ex_info_gone ex_note ex_state))
        = [Notice (NoticeNotFound (js ''gone.png'')),
           ReplaceRange \<lparr>line = 0, ch = 4\<rparr> \<lparr>line = 0, ch = 17\<rparr>]"
proof -
  let ?h = "ex_host ex_index []"
  let ?r = "processDeleteRequest ?h ex_info_gone ex_note ex_state"
  have unlocked: "\<not> isProcessing ex_state"
    by (simp add: ex_state_def onload_def)
  have unresolved: "getFirstLinkpathDest ?h (vault ex_state) (linkText ex_info_gone)
        (file_path ex_note) = None"
    by code_simp
  have fresh: "trace ex_state = []" "vault ex_state = ex_vault"
    by (simp_all add: ex_state_def onload_def)
  have edit: "editor_replaceRange ?h \<lparr>line = 0, ch = 4\<rparr> \<lparr>line = 0, ch = 17\<rparr> (doc ex_state)
      = js ''see  here''"
    by code_simp
  have info: "linkText ex_info_gone = js ''gone.png''"
    "link_start ex_info_gone = \<lparr>line = 0, ch = 4\<rparr>" "link_end ex_info_gone = \<lparr>line = 0, ch = 17\<rparr>"
    by (simp_all add: ex_info_gone_def)
  note inst = processDeleteRequest_link_not_found [OF unlocked unresolved,
      unfolded Let_def case_prod_beta fresh info list.size drop_0, unfolded edit]
  from inst unlocked unresolved show ?thesis
    by simp
qed

lemma performDeletion_index:
  "performDeletion (h\<lparr>resolvedLinks := r\<rparr>) f s = performDeletion h f s"
  by (simp add: performDeletion_def)

lemma cascadeDelete_index:
  "cascadeDelete (h\<lparr>resolvedLinks := r\<rparr>) folders s = cascadeDelete h folders s"
proof (induction folders arbitrary: s)
  case Nil
  show ?case by simp
next
  case (Cons folder folders)
  have "cascadeDelete (h\<lparr>resolvedLinks := r\<rparr>) folders = cascadeDelete h folders"
    using Cons.IH by (intro ext)
  then show ?case
    by (simp add: performDeletion_index split: option.splits)
qed

lemma tryBlock_index:
  "tryBlock (h\<lparr>resolvedLinks := r\<rparr>) c deleteFolders s = tryBlock h c deleteFolders s"
  unfolding tryBlock_def performDeletion_index cascadeDelete_index by simp

lemma executeDelete_index:
  "executeDelete (h\<lparr>resolvedLinks := r\<rparr>) c deleteFolders s = executeDelete h c deleteFolders s"
  unfolding executeDelete_def tryBlock_index by (rule refl)

lemma decisionLogic_index:
  "decisionLogic (h\<lparr>resolvedLinks := r\<rparr>) c s = decisionLogic h c s"
  unfolding decisionLogic_def executeDelete_index by (rule refl)

text \<open>
  For a target whose path is not the name of an inherited member, and an index whose
  recorded counts are at least 1, the multi-reference exit is taken as soon as the
  target has more than one referencing document or more than one occurrence.
\<close>

lemma card_one_member: "(card A = 1 \<and> p \<in> A) \<longleftrightarrow> A = {p}"
proof
  assume h: "card A = 1 \<and> p \<in> A"
  then have "card A = Suc 0" by simp
  then have "\<exists>x. A = {x}"
    by (simp only: card_1_singleton_iff)
  then obtain x where "A = {x}" ..
  with h show "A = {p}" by simp
next
  assume "A = {p}"
  then show "card A = 1 \<and> p \<in> A" by simp
qed

lemma only_current_note:
  assumes "file_path target \<notin> set objectPrototype"
  shows "(fileCount (getReferences index target) = 1 \<and> p \<in> set (files (getReferences index target)))
   \<longleftrightarrow> referencingDocuments index (file_path target) = {p}"
proof -
  let ?R = "referencingDocuments index (file_path target)"
  note summary = getReferences_summary [OF assms, of index]
  have c: "fileCount (getReferences index target) = card ?R"
    by (rule conjunct1 [OF conjunct2 [OF summary]])
  have f: "set (files (getReferences index target)) = ?R"
    by (rule conjunct1 [OF conjunct2 [OF conjunct2 [OF summary]]])
  show ?thesis
    unfolding c f by (rule card_one_member)
qed

lemma processDeleteRequest_multiply_referenced_own:
  fixes h :: "('v, 'd) host"
  defines "documents index target \<equiv> referencingDocuments index (file_path target)"
  defines "counted index target \<equiv>
     (\<Sum>source \<in> referencingDocuments index (file_path target).
        occurrences index (file_path target) source)"
  assumes unlocked: "\<not> isProcessing s"
    and resolved: "getFirstLinkpathDest h (vault s) (linkText info) (file_path note) = Some target"
    and own: "file_path target \<notin> set objectPrototype"
    and counts: "\<forall>source \<in> documents (resolvedLinks h (vault s)) target.
           occurrences (resolvedLinks h (vault s)) (file_path target) source \<ge> 1"
    and many: "card (documents (resolvedLinks h (vault s)) target) > 1
           \<or> counted (resolvedLinks h (vault s)) target > 1"
  shows "processDeleteRequest h info note s =
     (Returned,
      s\<lparr>doc := editor_replaceRange h (link_start info) (link_end info) (doc s),
        trace := trace s @
          [ReplaceRange (link_start info) (link_end info),
           Notice (if documents (resolvedLinks h (vault s)) target = {file_path note}
                   then NoticeSameNote (JSNumber (counted (resolvedLinks h (vault s)) target))
                   else NoticeMultiRef (JSNumber (counted (resolvedLinks h (vault s)) target)))]\<rparr>)"
proof -
  let ?index = "resolvedLinks h (vault s)"
  let ?R = "referencingDocuments ?index (file_path target)"
  let ?M = "\<Sum>source \<in> ?R. occurrences ?index (file_path target) source"
  note summary = getReferences_summary [OF own, of ?index]
  have tot: "totalCount (getReferences ?index target) = JSNumber ?M"
    by (rule conjunct1 [OF summary])
  have "card ?R * 1 \<le> ?M"
    using sum_bounded_below [of ?R 1 "occurrences ?index (file_path target)"] counts
    unfolding documents_def by simp
  with many have "?M > 1"
    unfolding documents_def counted_def by auto
  then have guard: "exceeds (totalCount (getReferences ?index target)) 1"
    by (simp add: tot)
  show ?thesis
    unfolding processDeleteRequest_multi [OF unlocked resolved guard] Let_def
      only_current_note [OF own] tot documents_def counted_def
    by (rule refl)
qed

text \<open>
  The example with \<open>ex_index3\<close>: three occurrences in two documents; the request removes
  the span, shows the notice with the count, and the file stays in the vault.
\<close>

lemma ex_index3_documents:
  "referencingDocuments ex_index3 (js ''A/B/C/file.png'') = {js ''other.md'', js ''note.md''}"
  unfolding referencing_set [symmetric] ex_index3_entries
  by (simp add: js_def)

lemma ex_index3_occurrences:
  "occurrences ex_index3 (js ''A/B/C/file.png'') (js ''other.md'') = 1"
  "occurrences ex_index3 (js ''A/B/C/file.png'') (js ''note.md'') = 2"
  by (simp_all add: occurrences_def DAList.lookup.rep_eq ex_index3_entries js_def)

lemma processDeleteRequest_multiply_referenced_example:
  "processDeleteRequest (ex_host ex_index3 []) ex_info ex_note ex_state =
     (Returned,
      ex_state\<lparr>doc := js ''see  here'',
               trace := [ReplaceRange \<lparr>line = 0, ch = 4\<rparr> \<lparr>line = 0, ch = 17\<rparr>,
                         Notice (NoticeMultiRef (JSNumber 3))]\<rparr>)"
proof -
  let ?h = "ex_host ex_index3 []"
  have index: "resolvedLinks ?h (vault ex_state) = ex_index3"
    by (simp add: ex_host_def)
  have p: "file_path ex_file = js ''A/B/C/file.png''"
    by (simp add: ex_file_def)
  have unlocked: "\<not> isProcessing ex_state"
    by (simp add: ex_state_def onload_def)
  have resolved: "getFirstLinkpathDest ?h (vault ex_state) (linkText ex_info) (file_path ex_note)
      = Some ex_file"
    by code_simp
  have two: "js ''other.md'' \<noteq> js ''note.md''"
    by (simp add: js_def)
  have counted: "(\<Sum>source \<in> referencingDocuments ex_index3 (js ''A/B/C/file.png'').
        occurrences ex_index3 (js ''A/B/C/file.png'') source) = 3"
    unfolding ex_index3_documents using two by (simp add: ex_index3_occurrences)
  have counts: "\<forall>source \<in> referencingDocuments (resolvedLinks ?h (vault ex_state)) (file_path ex_file).
      occurrences (resolvedLinks ?h (vault ex_state)) (file_path ex_file) source \<ge> 1"
    unfolding index p ex_index3_documents by (simp add: ex_index3_occurrences)
  have many: "card (referencingDocuments (resolvedLinks ?h (vault ex_state)) (file_path ex_file)) > 1
      \<or> (\<Sum>source \<in> referencingDocuments (resolvedLinks ?h (vault ex_state)) (file_path ex_file).
            occurrences (resolvedLinks ?h (vault ex_state)) (file_path ex_file) source) > 1"
    unfolding index p counted by simp
  have other: "referencingDocuments ex_index3 (js ''A/B/C/file.png'') \<noteq> {file_path ex_note}"
    unfolding ex_index3_documents by (simp add: ex_note_def js_def)
  have d: "editor_replaceRange ?h (link_start ex_info) (link_end ex_info) (doc ex_state)
      = js ''see  here''"
    by code_simp
  have t: "trace ex_state = []"
    by (simp add: ex_state_def onload_def)
  have span: "link_start ex_info = \<lparr>line = 0, ch = 4\<rparr>" "link_end ex_info = \<lparr>line = 0, ch = 17\<rparr>"
    by (simp_all add: ex_info_def)
  show ?thesis
    unfolding processDeleteRequest_multiply_referenced_own [OF unlocked resolved ex_file_own counts many]
    unfolding index p counted d t
    using other by (simp add: span)
qed

text \<open>
  A vault that holds the file \<open>constructor\<close> beside the two notes, with the index
  \<open>ex_index_member\<close>; the note \<open>note.md\<close> links the file twice, and the request is for
  the first of the two links.
\<close>

definition ex_host_member :: "(jsstring list, jsstring) host" where
  "ex_host_member =
     (ex_host ex_index_member [])
       \<lparr>getFirstLinkpathDest :=
          (\<lambda>v link source. if link = js ''constructor'' \<and> file_path ex_member \<in> set v
                           then Some ex_member else None)\<rparr>"

definition ex_info_member :: linkInfo where
  "ex_info_member = \<lparr>linkText = js ''constructor'', link_start = \<lparr>line = 0, ch = 4\<rparr>,
                      link_end = \<lparr>line = 0, ch = 19\<rparr>\<rparr>"

definition ex_state_member :: "(jsstring list, jsstring) plugin" where
  "ex_state_member =
     onload DEFAULT_SETTINGS [js ''constructor'', js ''note.md'', js ''other.md'']
       (js ''see [[constructor]] and [[constructor]]'')"

text \<open>
  C5. MultiplyReferenced, at a target whose path is the name of a member that plain
  objects inherit. The file \<open>constructor\<close> has two occurrences in \<open>note.md\<close>, and the
  summary of \<open>getReferences\<close> has \<open>fileCount = 2\<close>; its \<open>totalCount\<close> is a string, of
  which \<open>totalCount > 1\<close> is false, and the request deletes the file, removes the span
  and shows the notice of a deletion, where the policy keeps the file.
\<close>

theorem processDeleteRequest_multiply_referenced_inherited:
  "\<not> isProcessing ex_state_member
   \<and> getFirstLinkpathDest ex_host_member (vault ex_state_member) (linkText ex_info_member)
        (file_path ex_note) = Some ex_member
   \<and> occurrences (resolvedLinks ex_host_member (vault ex_state_member)) (file_path ex_member)
        (file_path ex_note) = 2
   \<and> fileCount (getReferences (resolvedLinks ex_host_member (vault ex_state_member)) ex_member) = 2
   \<and> \<not> exceeds
         (totalCount (getReferences (resolvedLinks ex_host_member (vault ex_state_member)) ex_member)) 1
   \<and> trace (snd (processDeleteRequest ex_host_member ex_info_member ex_note ex_state_member))
       = [VaultTrash (js ''constructor'') True,
          ReplaceRange \<lparr>line = 0, ch = 4\<rparr> \<lparr>line = 0, ch = 19\<rparr>,
          Notice (NoticeDeleted (js ''constructor''))]
   \<and> vault (snd (processDeleteRequest ex_host_member ex_info_member ex_note ex_state_member))
       = [js ''note.md'', js ''other.md'']
   \<and> doc (snd (processDeleteRequest ex_host_member ex_info_member ex_note ex_state_member))
       = js ''see  and [[constructor]]''"
proof -
  let ?h = "ex_host_member"
  let ?s = "ex_state_member"
  let ?c = "\<lparr>targetFile = ex_member, foldersToDelete = [],
        span_start = link_start ex_info_member, span_end = link_end ex_info_member\<rparr>"
  have index: "resolvedLinks ?h (vault ?s) = ex_index_member"
    by (simp add: ex_host_member_def ex_host_def)
  have unlocked: "\<not> isProcessing ?s"
    by (simp add: ex_state_member_def onload_def)
  have resolved: "getFirstLinkpathDest ?h (vault ?s) (linkText ex_info_member) (file_path ex_note)
      = Some ex_member"
    by (simp add: ex_host_member_def ex_host_def ex_state_member_def onload_def
        ex_info_member_def ex_member_def)
  have occ: "occurrences ex_index_member (file_path ex_member) (file_path ex_note) = 2"
    by (simp add: occurrences_def DAList.lookup.rep_eq ex_index_member_entries ex_member_def
        ex_note_def js_def)
  have nan: "stringToNumber (js ''2function Object() { [native code] }'') = None"
    by (rule stringToNumber_text) (simp add: functionText_def js_def)
  have single: "\<not> exceeds (totalCount (getReferences (resolvedLinks ?h (vault ?s)) ex_member)) 1"
    unfolding index ex_index_member_references by (simp add: nan)
  have plan: "calculateCascadeFolders (settings ?s) ex_member = []"
    by (simp add: calculateCascadeFolders_def ex_state_member_def onload_def DEFAULT_SETTINGS_def
        ex_member_def ex_root_def Let_def)
  have run: "processDeleteRequest ?h ex_info_member ex_note ?s = (Returned, executeDelete ?h ?c False ?s)"
    unfolding processDeleteRequest_single [OF unlocked resolved single] plan
    by (simp add: decisionLogic_def)
  have t: "trace (executeDelete ?h ?c False ?s)
       = [VaultTrash (js ''constructor'') True,
          ReplaceRange \<lparr>line = 0, ch = 4\<rparr> \<lparr>line = 0, ch = 19\<rparr>,
          Notice (NoticeDeleted (js ''constructor''))]"
    by code_simp
  have v: "vault (executeDelete ?h ?c False ?s) = [js ''note.md'', js ''other.md'']"
    by code_simp
  have d: "doc (executeDelete ?h ?c False ?s) = js ''see  and [[constructor]]''"
    by code_simp
  have count: "fileCount (getReferences (resolvedLinks ?h (vault ?s)) ex_member) = 2"
    unfolding index ex_index_member_references by simp
  from unlocked resolved occ count single show ?thesis
    unfolding run snd_conv t v d index by (intro conjI refl)
qed

subsection \<open>The guard of the multi-reference exit\<close>

text \<open>
  C10. The multi-reference exit is taken exactly when \<open>totalCount > 1\<close>. Otherwise the
  request goes on to the decision logic with the plan of the calculator, and what it
  does there is the same for every index that gives a \<open>totalCount\<close> not above 1: the same
  with no recorded reference as with one, and whatever \<open>fileCount\<close> is.
\<close>

theorem processDeleteRequest_guard:
  assumes "\<not> isProcessing s"
    and "getFirstLinkpathDest h (vault s) (linkText info) (file_path note) = Some target"
  shows "(exceeds (totalCount (getReferences (resolvedLinks h (vault s)) target)) 1 \<longrightarrow>
            processDeleteRequest h info note s =
              (let refs = getReferences (resolvedLinks h (vault s)) target
               in (Returned,
                   s\<lparr>doc := editor_replaceRange h (link_start info) (link_end info) (doc s),
                     trace := trace s @
                       [ReplaceRange (link_start info) (link_end info),
                        Notice (if fileCount refs = 1 \<and> file_path note \<in> set (files refs)
                                then NoticeSameNote (totalCount refs)
                                else NoticeMultiRef (totalCount refs))]\<rparr>)))
         \<and> (\<not> exceeds (totalCount (getReferences (resolvedLinks h (vault s)) target)) 1 \<longrightarrow>
            processDeleteRequest h info note s =
              decisionLogic h
                \<lparr>targetFile = target,
                 foldersToDelete = calculateCascadeFolders (settings s) target,
                 span_start = link_start info, span_end = link_end info\<rparr> s)
         \<and> (\<not> exceeds (totalCount (getReferences (resolvedLinks h (vault s)) target)) 1
              \<and> \<not> exceeds (totalCount (getReferences index target)) 1 \<longrightarrow>
            processDeleteRequest (h\<lparr>resolvedLinks := \<lambda>v. index\<rparr>) info note s =
              processDeleteRequest h info note s)"
proof (intro conjI impI)
  assume "exceeds (totalCount (getReferences (resolvedLinks h (vault s)) target)) 1"
  with assms show "processDeleteRequest h info note s =
              (let refs = getReferences (resolvedLinks h (vault s)) target
               in (Returned,
                   s\<lparr>doc := editor_replaceRange h (link_start info) (link_end info) (doc s),
                     trace := trace s @
                       [ReplaceRange (link_start info) (link_end info),
                        Notice (if fileCount refs = 1 \<and> file_path note \<in> set (files refs)
                                then NoticeSameNote (totalCount refs)
                                else NoticeMultiRef (totalCount refs))]\<rparr>))"
    by (rule processDeleteRequest_multi)
next
  assume "\<not> exceeds (totalCount (getReferences (resolvedLinks h (vault s)) target)) 1"
  with assms show "processDeleteRequest h info note s =
              decisionLogic h
                \<lparr>targetFile = target,
                 foldersToDelete = calculateCascadeFolders (settings s) target,
                 span_start = link_start info, span_end = link_end info\<rparr> s"
    by (rule processDeleteRequest_single)
next
  let ?h' = "h\<lparr>resolvedLinks := \<lambda>v. index\<rparr>"
  assume both: "\<not> exceeds (totalCount (getReferences (resolvedLinks h (vault s)) target)) 1
              \<and> \<not> exceeds (totalCount (getReferences index target)) 1"
  then have one: "\<not> exceeds (totalCount (getReferences (resolvedLinks h (vault s)) target)) 1"
    and other: "\<not> exceeds (totalCount (getReferences (resolvedLinks ?h' (vault s)) target)) 1"
    by simp_all
  have resolved: "getFirstLinkpathDest ?h' (vault s) (linkText info) (file_path note) = Some target"
    using assms(2) by simp
  show "processDeleteRequest ?h' info note s = processDeleteRequest h info note s"
    unfolding processDeleteRequest_single [OF assms(1) resolved other]
      processDeleteRequest_single [OF assms one]
    by (rule decisionLogic_index)
qed

text \<open>
  The theorem at the example: with the empty index (no recorded reference) the request
  does what it does with the one reference of \<open>ex_index\<close>.
\<close>

theorem processDeleteRequest_guard_witness:
  "\<not> isProcessing ex_state
   \<and> getFirstLinkpathDest (ex_host ex_index []) (vault ex_state) (linkText ex_info)
        (file_path ex_note) = Some ex_file
   \<and> totalCount (getReferences (resolvedLinks (ex_host ex_index []) (vault ex_state)) ex_file)
       = JSNumber 1
   \<and> totalCount (getReferences DAList.empty ex_file) = JSNumber 0
   \<and> processDeleteRequest (ex_host DAList.empty []) ex_info ex_note ex_state
       = processDeleteRequest (ex_host ex_index []) ex_info ex_note ex_state"
proof -
  let ?h = "ex_host ex_index []"
  have unlocked: "\<not> isProcessing ex_state"
    by (simp add: ex_state_def onload_def)
  have resolved: "getFirstLinkpathDest ?h (vault ex_state) (linkText ex_info) (file_path ex_note)
      = Some ex_file"
    by code_simp
  have entries: "DAList.impl_of ex_index = [(js ''note.md'', [js ''A/B/C/file.png'' \<mapsto> 1])]"
    by (simp add: ex_index_def DAList.update.rep_eq DAList.empty.rep_eq)
  have one: "totalCount (getReferences (resolvedLinks ?h (vault ex_state)) ex_file) = JSNumber 1"
    by (simp add: ex_host_def getReferences_def entries ex_file_def getProperty_def)
  have none: "totalCount (getReferences DAList.empty ex_file) = JSNumber 0"
    by (simp add: getReferences_def DAList.empty.rep_eq)
  have host: "?h\<lparr>resolvedLinks := \<lambda>v. DAList.empty\<rparr> = ex_host DAList.empty []"
    by (simp add: ex_host_def)
  have both: "\<not> exceeds (totalCount (getReferences (resolvedLinks ?h (vault ex_state)) ex_file)) 1
              \<and> \<not> exceeds (totalCount (getReferences DAList.empty ex_file)) 1"
    by (simp add: one none)
  note inst = processDeleteRequest_guard [OF unlocked resolved, of DAList.empty]
  from conjunct2 [OF conjunct2 [OF inst]] both
  have "processDeleteRequest (?h\<lparr>resolvedLinks := \<lambda>v. DAList.empty\<rparr>) ex_info ex_note ex_state
       = processDeleteRequest ?h ex_info ex_note ex_state"
    by (rule mp)
  with unlocked resolved one none show ?thesis
    by (simp only: host simp_thms)
qed

subsection \<open>Runs of \<open>executeDelete\<close> between their awaits\<close>

text \<open>
  \<open>executeDelete\<close> awaits each call of \<open>performDeletion\<close>; while the vault works, other
  handlers of the plugin may run. A run suspended at an await is either at the deletion
  of the target or, in the loop, at the deletion of a folder with the folders still to
  visit; it keeps the command it issued.
\<close>

datatype suspended =
  AwaitTarget deletion bool event
| AwaitFolder deletion "tfolder list" event


text \<open>The end of a run: the \<open>catch\<close> block when something was thrown, then \<open>finally\<close>.\<close>

definition settle :: "jserror option \<Rightarrow> ('v, 'd) plugin \<Rightarrow> ('v, 'd) plugin" where
  "settle thrown s =
     (case thrown of None \<Rightarrow> s | Some err \<Rightarrow> catchBlock err s)\<lparr>isProcessing := False\<rparr>"





text \<open>A run alone, to its end.\<close>

fun remaining :: "suspended \<Rightarrow> nat" where
  "remaining (AwaitTarget c deleteFolders e) = Suc (length (foldersToDelete c))"
| "remaining (AwaitFolder c folders e) = length folders"





lemma emit_fields [simp]:
  "vault (emit e s) = vault s" "doc (emit e s) = doc s" "settings (emit e s) = settings s"
  "isProcessing (emit e s) = isProcessing s"
  by (simp_all add: emit_def)



lemma settle_unlocked [simp]: "\<not> isProcessing (settle thrown s)"
  by (simp add: settle_def)








section \<open>Link Locator\<close>

subsection \<open>Regular expressions\<close>

text \<open>
  The part of the ECMAScript pattern language the two patterns of \<open>getLinkUnderCursor\<close>
  use, without the flags \<open>u\<close> and \<open>s\<close>: a literal code unit, the dot, sequence, the
  greedy \<open>?\<close>, the lazy \<open>*?\<close> and a capturing group with its number.
\<close>

datatype regex =
  Chr jschar
| Dot
| Seq regex regex
| Opt regex
| LazyStar regex
| Group nat regex

definition isLineTerminator :: "jschar \<Rightarrow> bool" where
  "isLineTerminator c \<longleftrightarrow> c = 0x000A \<or> c = 0x000D \<or> c = 0x2028 \<or> c = 0x2029"

type_synonym captures = "nat \<rightharpoonup> jsstring"

text \<open>
  An iteration of a quantifier that consumes nothing is rejected (the empty check of
  the specification's RepeatMatcher).
\<close>

definition progress :: "jsstring \<Rightarrow> (jsstring \<times> captures) list \<Rightarrow> (jsstring \<times> captures) list" where
  "progress s results = filter (\<lambda>(s', caps). length s' < length s) results"

text \<open>
  The backtracking matcher: \<open>matches r s caps\<close> lists every way \<open>r\<close> matches a prefix
  of the rest \<open>s\<close> of the input, in the order backtracking tries them, each with the
  input left and the captures. The first way after which the rest of the pattern
  matches is the one taken.
\<close>

function matches :: "regex \<Rightarrow> jsstring \<Rightarrow> captures \<Rightarrow> (jsstring \<times> captures) list" where
  "matches (Chr c) s caps =
     (case s of [] \<Rightarrow> [] | x # xs \<Rightarrow> if x = c then [(xs, caps)] else [])"
| "matches Dot s caps =
     (case s of [] \<Rightarrow> [] | x # xs \<Rightarrow> if isLineTerminator x then [] else [(xs, caps)])"
| "matches (Seq r1 r2) s caps =
     concat (map (\<lambda>(s', caps'). matches r2 s' caps') (matches r1 s caps))"
| "matches (Opt r) s caps = progress s (matches r s caps) @ [(s, caps)]"
| "matches (LazyStar r) s caps =
     (s, caps) #
     concat (map (\<lambda>(s', caps'). matches (LazyStar r) s' caps') (progress s (matches r s caps)))"
| "matches (Group n r) s caps =
     map (\<lambda>(s', caps'). (s', caps'(n \<mapsto> take (length s - length s') s))) (matches r s caps)"
  by pat_completeness auto
termination
  by (relation "measures [\<lambda>(r, s, caps). size r, \<lambda>(r, s, caps). length s]")
     (auto simp add: progress_def)

declare matches.simps [simp del]

text \<open>\<open>/!?\[\[(.*?)(?:\|.*?)?\]\]/g\<close> and \<open>/!?\[.*?\]\((.*?)\)/g\<close>\<close>

definition wikiRegex :: regex where
  "wikiRegex =
     Seq (Opt (Chr 0x21))
       (Seq (Chr 0x5B) (Seq (Chr 0x5B)
         (Seq (Group 1 (LazyStar Dot))
           (Seq (Opt (Seq (Chr 0x7C) (LazyStar Dot)))
             (Seq (Chr 0x5D) (Chr 0x5D))))))"

definition mdRegex :: regex where
  "mdRegex =
     Seq (Opt (Chr 0x21))
       (Seq (Chr 0x5B) (Seq (LazyStar Dot)
         (Seq (Chr 0x5D) (Seq (Chr 0x28)
           (Seq (Group 1 (LazyStar Dot)) (Chr 0x29))))))"

subsection \<open>\<open>RegExp.prototype.exec\<close> with the flag \<open>g\<close>\<close>

text \<open>
  A match: \<open>match.index\<close>, the index where it ends (\<open>match.index + match[0].length\<close>,
  the new \<open>lastIndex\<close>) and the captures.
\<close>

record regexMatch =
  match_index :: nat
  match_end :: nat
  match_groups :: captures

text \<open>The match of the pattern that starts at index \<open>i\<close>, if there is one.\<close>

definition matchAt :: "regex \<Rightarrow> jsstring \<Rightarrow> nat \<Rightarrow> regexMatch option" where
  "matchAt r s i =
     (case matches r (drop i s) Map.empty of
        [] \<Rightarrow> None
      | (rest, caps) # others \<Rightarrow>
          Some \<lparr>match_index = i, match_end = length s - length rest, match_groups = caps\<rparr>)"

text \<open>
  \<open>exec\<close> tries the indices from \<open>lastIndex\<close> on, one by one, up to the length of the
  string, and gives \<open>null\<close> when none starts a match.
\<close>

function exec :: "regex \<Rightarrow> jsstring \<Rightarrow> nat \<Rightarrow> regexMatch option" where
  "exec r s lastIndex =
     (if lastIndex > length s then None
      else (case matchAt r s lastIndex of
              Some m \<Rightarrow> Some m
            | None \<Rightarrow> exec r s (Suc lastIndex)))"
  by pat_completeness auto
termination
  by (relation "measure (\<lambda>(r, s, lastIndex). Suc (length s) - lastIndex)") auto

text \<open>\<open>match[n]\<close>; a group that took no part reads as the empty string here.\<close>

definition matchGroup :: "nat \<Rightarrow> regexMatch \<Rightarrow> jsstring" where
  "matchGroup n m = (case match_groups m n of None \<Rightarrow> [] | Some t \<Rightarrow> t)"

subsection \<open>The two loops of \<open>getLinkUnderCursor\<close>\<close>

datatype linkSyntax = Wiki | Markdown

fun regexOf :: "linkSyntax \<Rightarrow> regex" where
  "regexOf Wiki = wikiRegex"
| "regexOf Markdown = mdRegex"

text \<open>The least number of code units a match consumes.\<close>

fun minLength :: "regex \<Rightarrow> nat" where
  "minLength (Chr c) = 1"
| "minLength Dot = 1"
| "minLength (Seq r1 r2) = minLength r1 + minLength r2"
| "minLength (Opt r) = 0"
| "minLength (LazyStar r) = 0"
| "minLength (Group n r) = minLength r"

lemma matches_consume:
  "(rest, caps') \<in> set (matches r s caps) \<Longrightarrow> length rest + minLength r \<le> length s"
proof (induction r s caps arbitrary: rest caps' rule: matches.induct)
  case (1 c s caps)
  then show ?case
    by (auto simp add: matches.simps(1) split: list.splits if_splits)
next
  case (2 s caps)
  then show ?case
    by (auto simp add: matches.simps(2) split: list.splits if_splits)
next
  case (3 r1 r2 s caps)
  from "3.prems" obtain mid caps1 where
    a: "(mid, caps1) \<in> set (matches r1 s caps)" and b: "(rest, caps') \<in> set (matches r2 mid caps1)"
    by (auto simp add: matches.simps(3))
  from "3.IH"(1) [OF a] "3.IH"(2) [OF a refl b] show ?case by simp
next
  case (4 r s caps)
  from "4.prems" have "(rest, caps') \<in> set (progress s (matches r s caps)) \<or> rest = s"
    by (auto simp add: matches.simps(4))
  then show ?case
    by (auto simp add: progress_def)
next
  case (5 r s caps)
  from "5.prems" consider "rest = s"
    | mid caps1 where "(mid, caps1) \<in> set (progress s (matches r s caps))"
        and "(rest, caps') \<in> set (matches (LazyStar r) mid caps1)"
    by (subst (asm) matches.simps(5)) auto
  then show ?case
  proof cases
    case 1
    then show ?thesis by simp
  next
    case 2
    from 2(1) have "length mid < length s"
      by (simp add: progress_def)
    with "5.IH"(2) [OF 2(1) refl 2(2)] show ?thesis by simp
  qed
next
  case (6 n r s caps)
  from "6.prems" obtain caps1 where "(rest, caps1) \<in> set (matches r s caps)"
    by (auto simp add: matches.simps(6))
  from "6.IH" [OF this] show ?case by simp
qed

lemma matchAt_bounds:
  assumes "matchAt r s i = Some m" and "i \<le> length s"
  shows "match_index m = i" and "i + minLength r \<le> match_end m" and "match_end m \<le> length s"
proof -
  from assms(1) obtain rest caps others where
    ms: "matches r (drop i s) Map.empty = (rest, caps) # others"
    and m: "m = \<lparr>match_index = i, match_end = length s - length rest, match_groups = caps\<rparr>"
    by (auto simp add: matchAt_def split: list.splits)
  from ms have "(rest, caps) \<in> set (matches r (drop i s) Map.empty)" by simp
  from matches_consume [OF this] have "length rest + minLength r \<le> length s - i" by simp
  with assms(2) m show "match_index m = i" and "i + minLength r \<le> match_end m"
    and "match_end m \<le> length s"
    by simp_all
qed

lemma exec_bounds:
  "exec r s lastIndex = Some m \<Longrightarrow>
   lastIndex \<le> match_index m \<and> match_index m + minLength r \<le> match_end m
   \<and> match_end m \<le> length s"
proof (induction r s lastIndex rule: exec.induct)
  case (1 r s lastIndex)
  show ?case
  proof (cases "lastIndex > length s")
    case True
    with "1.prems" show ?thesis by simp
  next
    case False
    show ?thesis
    proof (cases "matchAt r s lastIndex")
      case None
      with False "1.prems" have "exec r s (Suc lastIndex) = Some m" by simp
      from "1.IH" [OF False None this] show ?thesis by simp
    next
      case (Some m')
      with False "1.prems" have "m' = m" by simp
      with Some matchAt_bounds [of r s lastIndex m] False show ?thesis by simp
    qed
  qed
qed

lemma minLength_regexOf: "minLength (regexOf syn) = 4"
  by (cases syn) (simp_all add: wikiRegex_def mdRegex_def)

text \<open>
  \<open>while ((match = regex.exec(lineText)) !== null)\<close> with the test on the cursor in its
  body: the first match of the scan whose span holds the cursor, ends included.
\<close>

function scan :: "linkSyntax \<Rightarrow> jsstring \<Rightarrow> nat \<Rightarrow> nat \<Rightarrow> regexMatch option" where
  "scan syn lineText cursor_ch lastIndex =
     (case exec (regexOf syn) lineText lastIndex of
        None \<Rightarrow> None
      | Some m \<Rightarrow>
          if cursor_ch \<ge> match_index m \<and> cursor_ch \<le> match_end m then Some m
          else scan syn lineText cursor_ch (match_end m))"
  by pat_completeness auto
termination
proof (relation "measure (\<lambda>(syn, lineText, cursor_ch, lastIndex). Suc (length lineText) - lastIndex)")
  show "wf (measure (\<lambda>(syn, lineText, cursor_ch, lastIndex). Suc (length lineText) - lastIndex))"
    by simp
next
  fix syn lineText cursor_ch lastIndex m
  assume "exec (regexOf syn) lineText lastIndex = Some m"
  from exec_bounds [OF this]
  show "((syn, lineText, cursor_ch, match_end m), syn, lineText, cursor_ch, lastIndex)
      \<in> measure (\<lambda>(syn, lineText, cursor_ch, lastIndex). Suc (length lineText) - lastIndex)"
    unfolding minLength_regexOf by simp arith
qed

declare exec.simps [simp del] scan.simps [simp del]

subsection \<open>\<open>decodeURIComponent\<close>\<close>

text \<open>
  The abstract operation Decode of ECMAScript with the empty set of preserved escapes.
  An escape \<open>%XX\<close> stands for an octet; the octets of one code point are decoded from
  UTF-8 and the code point is written in UTF-16. A \<open>%\<close> without two hexadecimal digits,
  a missing or malformed continuation octet and octets that are not the UTF-8 encoding
  of a code point throw a URIError.
\<close>

datatype uriError = URIError

definition hexDigit :: "jschar \<Rightarrow> nat option" where
  "hexDigit c =
     (if 0x30 \<le> c \<and> c \<le> 0x39 then Some (unat c - 0x30)
      else if 0x41 \<le> c \<and> c \<le> 0x46 then Some (unat c - 0x41 + 10)
      else if 0x61 \<le> c \<and> c \<le> 0x66 then Some (unat c - 0x61 + 10)
      else None)"

definition parseHexOctet :: "jschar \<Rightarrow> jschar \<Rightarrow> nat option" where
  "parseHexOctet c1 c2 =
     (case (hexDigit c1, hexDigit c2) of
        (Some d1, Some d2) \<Rightarrow> Some (16 * d1 + d2)
      | _ \<Rightarrow> None)"

text \<open>The number of leading 1 bits of an octet.\<close>

definition leadingOnes :: "nat \<Rightarrow> nat" where
  "leadingOnes b =
     (if b < 0x80 then 0 else if b < 0xC0 then 1 else if b < 0xE0 then 2
      else if b < 0xF0 then 3 else if b < 0xF8 then 4 else if b < 0xFC then 5
      else if b < 0xFE then 6 else if b < 0xFF then 7 else 8)"

text \<open>The continuation octets: \<open>n\<close> escapes \<open>%XX\<close> at the head of the string.\<close>

fun continuationBytes :: "nat \<Rightarrow> jsstring \<Rightarrow> nat list option" where
  "continuationBytes 0 s = Some []"
| "continuationBytes (Suc n) (p # c1 # c2 # s) =
     (if p \<noteq> 0x25 then None
      else (case parseHexOctet c1 c2 of
              None \<Rightarrow> None
            | Some b \<Rightarrow> (case continuationBytes n s of
                          None \<Rightarrow> None
                        | Some bs \<Rightarrow> Some (b # bs))))"
| "continuationBytes (Suc n) s = None"

text \<open>
  The code point of a sequence of 2 to 4 octets, when it is well-formed UTF-8:
  continuation octets are \<open>10xxxxxx\<close>, the encoding is the shortest one, and the code
  point is no surrogate and at most \<open>0x10FFFF\<close>.
\<close>

definition utf8CodePoint :: "nat list \<Rightarrow> nat option" where
  "utf8CodePoint octets =
     (case octets of
        [b0, b1] \<Rightarrow>
          (let v = (b0 - 0xC0) * 0x40 + (b1 - 0x80)
           in if 0x80 \<le> b1 \<and> b1 < 0xC0 \<and> 0x80 \<le> v then Some v else None)
      | [b0, b1, b2] \<Rightarrow>
          (let v = (b0 - 0xE0) * 0x1000 + (b1 - 0x80) * 0x40 + (b2 - 0x80)
           in if 0x80 \<le> b1 \<and> b1 < 0xC0 \<and> 0x80 \<le> b2 \<and> b2 < 0xC0
                 \<and> 0x800 \<le> v \<and> \<not> (0xD800 \<le> v \<and> v \<le> 0xDFFF)
              then Some v else None)
      | [b0, b1, b2, b3] \<Rightarrow>
          (let v = (b0 - 0xF0) * 0x40000 + (b1 - 0x80) * 0x1000 + (b2 - 0x80) * 0x40
                     + (b3 - 0x80)
           in if 0x80 \<le> b1 \<and> b1 < 0xC0 \<and> 0x80 \<le> b2 \<and> b2 < 0xC0 \<and> 0x80 \<le> b3 \<and> b3 < 0xC0
                 \<and> 0x10000 \<le> v \<and> v \<le> 0x10FFFF
              then Some v else None)
      | _ \<Rightarrow> None)"

definition utf16Encode :: "nat \<Rightarrow> jsstring" where
  "utf16Encode v =
     (if v < 0x10000 then [of_nat v]
      else [of_nat (0xD800 + (v - 0x10000) div 0x400), of_nat (0xDC00 + (v - 0x10000) mod 0x400)])"

definition prepend :: "jsstring \<Rightarrow> uriError + jsstring \<Rightarrow> uriError + jsstring" where
  "prepend t r = (case r of Inl e \<Rightarrow> Inl e | Inr s \<Rightarrow> Inr (t @ s))"

fun decodeURIComponent :: "jsstring \<Rightarrow> uriError + jsstring" where
  "decodeURIComponent [] = Inr []"
| "decodeURIComponent (c # s) =
     (if c \<noteq> 0x25 then prepend [c] (decodeURIComponent s)
      else
        (case s of
           c1 # c2 # s' \<Rightarrow>
             (case parseHexOctet c1 c2 of
                None \<Rightarrow> Inl URIError
              | Some b \<Rightarrow>
                  (let n = leadingOnes b
                   in if n = 0 then prepend [of_nat b] (decodeURIComponent s')
                      else if n = 1 \<or> n > 4 then Inl URIError
                      else
                        (case continuationBytes (n - 1) s' of
                           None \<Rightarrow> Inl URIError
                         | Some bs \<Rightarrow>
                             (case utf8CodePoint (b # bs) of
                                None \<Rightarrow> Inl URIError
                              | Some v \<Rightarrow>
                                  prepend (utf16Encode v)
                                    (decodeURIComponent (drop (3 * (n - 1)) s'))))))
         | _ \<Rightarrow> Inl URIError))"

subsection \<open>\<open>getLinkUnderCursor\<close>\<close>

definition getLinkUnderCursor :: "jsstring \<Rightarrow> position \<Rightarrow> uriError + linkInfo option" where
  "getLinkUnderCursor lineText cursor =
     (case scan Wiki lineText (ch cursor) 0 of
        Some m \<Rightarrow>
          Inr (Some \<lparr>linkText = matchGroup 1 m,
                     link_start = \<lparr>line = line cursor, ch = match_index m\<rparr>,
                     link_end = \<lparr>line = line cursor, ch = match_end m\<rparr>\<rparr>)
      | None \<Rightarrow>
          (case scan Markdown lineText (ch cursor) 0 of
             Some m \<Rightarrow>
               (case decodeURIComponent (matchGroup 1 m) of
                  Inl e \<Rightarrow> Inl e
                | Inr t \<Rightarrow>
                    Inr (Some \<lparr>linkText = t,
                               link_start = \<lparr>line = line cursor, ch = match_index m\<rparr>,
                               link_end = \<lparr>line = line cursor, ch = match_end m\<rparr>\<rparr>))
           | None \<Rightarrow> Inr None))"

subsection \<open>The matches of a scan\<close>








subsection \<open>What the two patterns match\<close>

lemma matches_Chr:
  "matches (Chr c) (x # xs) caps = (if x = c then [(xs, caps)] else [])"
  "matches (Chr c) [] caps = []"
  by (simp_all add: matches.simps(1))

lemma progress_Nil [simp]: "progress s [] = []"
  by (simp add: progress_def)

lemma progress_Cons [simp]:
  "progress s ((s', caps) # results) =
     (if length s' < length s then (s', caps) # progress s results else progress s results)"
  by (simp add: progress_def)

text \<open>The lazy \<open>.*?\<close> offers to stop after 0, 1, 2, ... code units up to the next line terminator.\<close>

definition dots :: "jsstring \<Rightarrow> nat" where
  "dots s = length (takeWhile (\<lambda>c. \<not> isLineTerminator c) s)"

lemma dots_Nil [simp]: "dots [] = 0"
  by (simp add: dots_def)

lemma dots_Cons [simp]: "dots (x # xs) = (if isLineTerminator x then 0 else Suc (dots xs))"
  by (simp add: dots_def)

lemma dots_le: "dots s \<le> length s"
  unfolding dots_def by (rule length_takeWhile_le)

lemma dots_append:
  "\<forall>c \<in> set t. \<not> isLineTerminator c \<Longrightarrow> dots (t @ s) = length t + dots s"
  by (induction t) simp_all

lemma matches_star_dot:
  "matches (LazyStar Dot) s caps = map (\<lambda>k. (drop k s, caps)) [0..<Suc (dots s)]"
proof (induction s)
  case Nil
  show ?case
    by (simp add: matches.simps(5) [of Dot "[]"] matches.simps(2))
next
  case (Cons x xs)
  show ?case
  proof (cases "isLineTerminator x")
    case True
    then show ?thesis
      by (simp add: matches.simps(5) [of Dot "x # xs"] matches.simps(2))
  next
    case False
    have "[0..<Suc (Suc (dots xs))] = 0 # map Suc [0..<Suc (dots xs)]"
      by (subst upt_rec) (simp add: map_Suc_upt del: upt_Suc)
    with False Cons.IH show ?thesis
      by (simp add: matches.simps(5) [of Dot "x # xs"] matches.simps(2) comp_def)
  qed
qed

lemma matches_star_then:
  "matches (Seq (LazyStar Dot) r) s caps =
     concat (map (\<lambda>k. matches r (drop k s) caps) [0..<Suc (dots s)])"
  unfolding matches.simps(3) matches_star_dot map_map comp_def prod.case by (rule refl)

lemma matches_group_star:
  "matches (Group g (LazyStar Dot)) s caps =
     map (\<lambda>k. (drop k s, caps(g \<mapsto> take k s))) [0..<Suc (dots s)]"
proof -
  have "matches (Group g (LazyStar Dot)) s caps =
      map (\<lambda>k. (drop k s, caps(g \<mapsto> take (length s - length (drop k s)) s)))
        [0..<Suc (dots s)]"
    unfolding matches.simps(6) matches_star_dot map_map comp_def prod.case by (rule refl)
  also have "\<dots> = map (\<lambda>k. (drop k s, caps(g \<mapsto> take k s))) [0..<Suc (dots s)]"
  proof (intro map_cong refl)
    fix k assume "k \<in> set [0..<Suc (dots s)]"
    with dots_le [of s] have "k \<le> length s" by auto
    then have "length s - length (drop k s) = k" by simp
    then show "(drop k s, caps(g \<mapsto> take (length s - length (drop k s)) s))
        = (drop k s, caps(g \<mapsto> take k s))"
      by simp
  qed
  finally show ?thesis .
qed

lemma matches_group_then:
  "matches (Seq (Group g (LazyStar Dot)) r) s caps =
     concat (map (\<lambda>k. matches r (drop k s) (caps(g \<mapsto> take k s))) [0..<Suc (dots s)])"
  unfolding matches.simps(3) matches_group_star map_map comp_def prod.case by (rule refl)

lemma concat_first:
  assumes "k < n" and "\<forall>j < k. f j = []"
  shows "concat (map f [0..<n]) = f k @ concat (map f [Suc k..<n])"
proof -
  from assms(1) obtain d where n: "n = k + Suc d"
    by (auto simp add: less_iff_Suc_add)
  have "[0..<k + Suc d] = [0..<k] @ [k..<k + Suc d]"
    by (rule upt_add_eq_append) simp
  also have "[k..<k + Suc d] = k # [Suc k..<k + Suc d]"
    by (rule upt_conv_Cons) simp
  finally have "[0..<n] = [0..<k] @ k # [Suc k..<n]"
    unfolding n .
  moreover from assms(2) have "concat (map f [0..<k]) = []"
    by simp
  ultimately show ?thesis by simp
qed

lemma matches_chr_then:
  "matches (Seq (Chr a) r) s caps =
     (case s of [] \<Rightarrow> [] | x # xs \<Rightarrow> if x = a then matches r xs caps else [])"
  by (cases s) (simp_all add: matches.simps(3) matches_Chr)

lemma matches_bang_then:
  "matches (Seq (Opt (Chr 0x21)) r) s caps =
     (case s of
        [] \<Rightarrow> matches r [] caps
      | x # xs \<Rightarrow> if x = 0x21 then matches r xs caps @ matches r s caps else matches r s caps)"
  by (cases s) (simp_all add: matches.simps(3) matches.simps(4) matches_Chr)


definition wikiClose :: regex where
  "wikiClose = Seq (Chr 0x5D) (Chr 0x5D)"

definition wikiAlias :: regex where
  "wikiAlias = Seq (Opt (Seq (Chr 0x7C) (LazyStar Dot))) wikiClose"

lemma wikiRegex_parts:
  "wikiRegex =
     Seq (Opt (Chr 0x21)) (Seq (Chr 0x5B) (Seq (Chr 0x5B) (Seq (Group 1 (LazyStar Dot)) wikiAlias)))"
  by (simp add: wikiRegex_def wikiAlias_def wikiClose_def)








lemma wiki_start:
  assumes "matches wikiRegex s caps \<noteq> []"
  shows "(\<exists>r. s = 0x5B # 0x5B # r) \<or> (\<exists>r. s = 0x21 # 0x5B # 0x5B # r)"
  using assms
  by (auto simp add: wikiRegex_parts matches_bang_then matches_chr_then
      split: list.splits if_splits)

definition mdTarget :: regex where
  "mdTarget = Seq (Group 1 (LazyStar Dot)) (Chr 0x29)"

definition mdTail :: regex where
  "mdTail = Seq (Chr 0x5D) (Seq (Chr 0x28) mdTarget)"

lemma mdRegex_parts:
  "mdRegex = Seq (Opt (Chr 0x21)) (Seq (Chr 0x5B) (Seq (LazyStar Dot) mdTail))"
  by (simp add: mdRegex_def mdTail_def mdTarget_def)

lemma md_target:
  assumes "\<forall>c \<in> set target. c \<noteq> 0x29 \<and> \<not> isLineTerminator c"
  shows "\<exists>others. matches mdTarget (target @ 0x29 # post) caps = (post, caps(1 \<mapsto> target)) # others"
proof -
  let ?s = "target @ 0x29 # post"
  let ?f = "\<lambda>k. matches (Chr 0x29) (drop k ?s) (caps(1 \<mapsto> take k ?s))"
  have plain: "\<forall>c \<in> set target. \<not> isLineTerminator c"
    using assms by simp
  have reach: "length target < Suc (dots ?s)"
    by (simp add: dots_append [OF plain])
  have before: "\<forall>j < length target. ?f j = []"
  proof (intro allI impI)
    fix j assume j: "j < length target"
    then have "drop j ?s = target ! j # drop (Suc j) target @ 0x29 # post"
      by (simp add: Cons_nth_drop_Suc)
    moreover from j assms have "target ! j \<noteq> 0x29" by simp
    ultimately show "?f j = []"
      by (simp add: matches_Chr)
  qed
  have "?f (length target) = [(post, caps(1 \<mapsto> target))]"
    by (simp add: matches_Chr)
  with concat_first [OF reach before] show ?thesis
    unfolding mdTarget_def matches_group_then by simp
qed

lemma md_body:
  assumes "\<forall>c \<in> set label. c \<noteq> 0x5D \<and> \<not> isLineTerminator c"
    and "\<forall>c \<in> set target. c \<noteq> 0x29 \<and> \<not> isLineTerminator c"
  shows "\<exists>others.
     matches (Seq (LazyStar Dot) mdTail) (label @ 0x5D # 0x28 # target @ 0x29 # post) caps
       = (post, caps(1 \<mapsto> target)) # others"
proof -
  let ?s = "label @ 0x5D # 0x28 # target @ 0x29 # post"
  let ?f = "\<lambda>k. matches mdTail (drop k ?s) caps"
  have plain: "\<forall>c \<in> set label. \<not> isLineTerminator c"
    using assms(1) by simp
  have reach: "length label < Suc (dots ?s)"
    by (simp add: dots_append [OF plain])
  have before: "\<forall>j < length label. ?f j = []"
  proof (intro allI impI)
    fix j assume j: "j < length label"
    then have "drop j ?s = label ! j # drop (Suc j) label @ 0x5D # 0x28 # target @ 0x29 # post"
      by (simp add: Cons_nth_drop_Suc)
    moreover from j assms(1) have "label ! j \<noteq> 0x5D" by simp
    ultimately show "?f j = []"
      by (simp add: mdTail_def matches_chr_then)
  qed
  from md_target [OF assms(2), of post caps]
  have "\<exists>others. ?f (length label) = (post, caps(1 \<mapsto> target)) # others"
    by (simp add: mdTail_def matches_chr_then)
  then obtain others where "?f (length label) = (post, caps(1 \<mapsto> target)) # others" ..
  with concat_first [OF reach before] show ?thesis
    unfolding matches_star_then by simp
qed

lemma md_link:
  assumes "\<forall>c \<in> set label. c \<noteq> 0x5D \<and> \<not> isLineTerminator c"
    and "\<forall>c \<in> set target. c \<noteq> 0x29 \<and> \<not> isLineTerminator c"
  shows "\<exists>others.
     matches mdRegex (0x5B # label @ 0x5D # 0x28 # target @ 0x29 # post) caps
       = (post, caps(1 \<mapsto> target)) # others"
  using md_body [OF assms, of post caps]
  by (simp add: mdRegex_parts matches_bang_then matches_chr_then)

lemma md_embed:
  assumes "\<forall>c \<in> set label. c \<noteq> 0x5D \<and> \<not> isLineTerminator c"
    and "\<forall>c \<in> set target. c \<noteq> 0x29 \<and> \<not> isLineTerminator c"
  shows "\<exists>others.
     matches mdRegex (0x21 # 0x5B # label @ 0x5D # 0x28 # target @ 0x29 # post) caps
       = (post, caps(1 \<mapsto> target)) # others"
  using md_body [OF assms, of post caps]
  by (auto simp add: mdRegex_parts matches_bang_then matches_chr_then)

lemma md_start:
  assumes "matches mdRegex s caps \<noteq> []"
  shows "(\<exists>r. s = 0x5B # r) \<or> (\<exists>r. s = 0x21 # 0x5B # r)"
  using assms
  by (auto simp add: mdRegex_parts matches_bang_then matches_chr_then
      split: list.splits if_splits)

subsection \<open>Where a scan finds its first match\<close>

lemma matchAt_None: "matchAt r s i = None \<longleftrightarrow> matches r (drop i s) Map.empty = []"
  by (simp add: matchAt_def split: list.splits)

lemma matchAt_head:
  "matches r (drop i s) Map.empty = (rest, caps) # others \<Longrightarrow>
   matchAt r s i = Some \<lparr>match_index = i, match_end = length s - length rest, match_groups = caps\<rparr>"
  by (simp add: matchAt_def)

lemma exec_first:
  assumes "lastIndex \<le> k" and "k \<le> length s"
    and "\<forall>i. lastIndex \<le> i \<and> i < k \<longrightarrow> matchAt r s i = None"
    and "matchAt r s k = Some m"
  shows "exec r s lastIndex = Some m"
  using assms(1,3)
proof (induction rule: inc_induct)
  case base
  from assms(2,4) show ?case
    by (simp add: exec.simps [of r s k])
next
  case (step n)
  from step.prems step.hyps have "matchAt r s n = None" by simp
  moreover from step.hyps assms(2) have "\<not> n > length s" by simp
  moreover have "exec r s (Suc n) = Some m"
    using step.IH step.prems by simp
  ultimately show ?case
    by (simp add: exec.simps [of r s n])
qed

lemma exec_matchAt:
  "exec r s lastIndex = Some m \<Longrightarrow> lastIndex \<le> match_index m \<and> matchAt r s (match_index m) = Some m"
proof (induction r s lastIndex rule: exec.induct)
  case (1 r s lastIndex)
  from "1.prems" have inside: "\<not> lastIndex > length s"
    by (simp add: exec.simps [of r s lastIndex] split: if_splits)
  show ?case
  proof (cases "matchAt r s lastIndex")
    case None
    with inside "1.prems" have "exec r s (Suc lastIndex) = Some m"
      by (simp add: exec.simps [of r s lastIndex])
    from "1.IH" [OF inside None this] show ?thesis by simp
  next
    case (Some m')
    with inside "1.prems" have "m' = m"
      by (simp add: exec.simps [of r s lastIndex])
    with Some inside matchAt_bounds(1) [of r s lastIndex m] show ?thesis by simp
  qed
qed

lemma scan_none:
  "\<forall>i \<le> offset. matchAt (regexOf syn) s i = None \<Longrightarrow> scan syn s offset lastIndex = None"
proof (induction syn s offset lastIndex rule: scan.induct)
  case (1 syn lineText offset lastIndex)
  show ?case
  proof (cases "exec (regexOf syn) lineText lastIndex")
    case None
    then show ?thesis by (simp add: scan.simps [of syn lineText offset lastIndex])
  next
    case (Some m)
    from exec_matchAt [OF Some] "1.prems" have "\<not> match_index m \<le> offset"
      by auto
    with Some "1.IH" [OF Some _ "1.prems"] show ?thesis
      by (simp add: scan.simps [of syn lineText offset lastIndex])
  qed
qed

lemma scan_first:
  "exec (regexOf syn) s lastIndex = Some m \<Longrightarrow> match_index m \<le> offset \<Longrightarrow>
   offset \<le> match_end m \<Longrightarrow> scan syn s offset lastIndex = Some m"
  by (simp add: scan.simps [of syn s offset lastIndex])

lemma drop_Cons_nth:
  assumes "drop i s = a # r"
  shows "i < length s" and "s ! i = a" and "drop (Suc i) s = r"
proof -
  from assms have "drop i s \<noteq> []" by simp
  then show "i < length s" by simp
  from Cons_nth_drop_Suc [OF this] assms show "s ! i = a" and "drop (Suc i) s = r"
    by simp_all
qed

lemma wiki_start_nth:
  assumes "matchAt wikiRegex s i \<noteq> None"
  shows "(Suc i < length s \<and> s ! i = 0x5B \<and> s ! Suc i = 0x5B)
       \<or> (Suc (Suc i) < length s \<and> s ! i = 0x21 \<and> s ! Suc i = 0x5B \<and> s ! Suc (Suc i) = 0x5B)"
proof -
  from assms have "matches wikiRegex (drop i s) Map.empty \<noteq> []"
    by (simp add: matchAt_None)
  from wiki_start [OF this] show ?thesis
  proof
    assume "\<exists>r. drop i s = 0x5B # 0x5B # r"
    then obtain r where d: "drop i s = 0x5B # 0x5B # r" ..
    from drop_Cons_nth [OF d] drop_Cons_nth [OF drop_Cons_nth(3) [OF d]] show ?thesis
      by simp
  next
    assume "\<exists>r. drop i s = 0x21 # 0x5B # 0x5B # r"
    then obtain r where d: "drop i s = 0x21 # 0x5B # 0x5B # r" ..
    note d1 = drop_Cons_nth [OF d]
    note d2 = drop_Cons_nth [OF d1(3)]
    note d3 = drop_Cons_nth [OF d2(3)]
    from d1 d2 d3 show ?thesis by simp
  qed
qed

lemma md_start_nth:
  assumes "matchAt mdRegex s i \<noteq> None"
  shows "(i < length s \<and> s ! i = 0x5B)
       \<or> (Suc i < length s \<and> s ! i = 0x21 \<and> s ! Suc i = 0x5B)"
proof -
  from assms have "matches mdRegex (drop i s) Map.empty \<noteq> []"
    by (simp add: matchAt_None)
  from md_start [OF this] show ?thesis
  proof
    assume "\<exists>r. drop i s = 0x5B # r"
    then obtain r where d: "drop i s = 0x5B # r" ..
    from drop_Cons_nth [OF d] show ?thesis by simp
  next
    assume "\<exists>r. drop i s = 0x21 # 0x5B # r"
    then obtain r where d: "drop i s = 0x21 # 0x5B # r" ..
    note d1 = drop_Cons_nth [OF d]
    note d2 = drop_Cons_nth [OF d1(3)]
    from d1 d2 show ?thesis by simp
  qed
qed

text \<open>
  No link starts in text without \<open>[\<close>, unless the text ends in \<open>!\<close> and a \<open>[\<close> follows.
\<close>

lemma no_start_before:
  assumes "0x5B \<notin> set pre" and "i < length pre"
    and "pre = [] \<or> last pre \<noteq> 0x21 \<or> (\<exists>x r. s = x # r \<and> x \<noteq> 0x5B)"
  shows "matchAt (regexOf syn) (pre @ s) i = None"
proof (rule ccontr)
  assume "matchAt (regexOf syn) (pre @ s) i \<noteq> None"
  then have start: "(pre @ s) ! i = 0x5B
      \<or> (Suc i < length (pre @ s) \<and> (pre @ s) ! i = 0x21 \<and> (pre @ s) ! Suc i = 0x5B)"
    using wiki_start_nth [of "pre @ s" i] md_start_nth [of "pre @ s" i]
    by (cases syn) auto
  have here: "(pre @ s) ! i \<noteq> 0x5B"
  proof -
    from assms(2) have "pre ! i \<in> set pre" by simp
    with assms(1) have "pre ! i \<noteq> 0x5B" by metis
    with assms(2) show ?thesis by (simp add: nth_append)
  qed
  have next_inside: "(pre @ s) ! Suc i \<noteq> 0x5B" if "Suc i < length pre"
  proof -
    from that have "pre ! Suc i \<in> set pre" by simp
    with assms(1) have "pre ! Suc i \<noteq> 0x5B" by metis
    with that show ?thesis by (simp add: nth_append)
  qed
  have at_end: "\<not> (Suc i < length (pre @ s) \<and> (pre @ s) ! i = 0x21 \<and> (pre @ s) ! Suc i = 0x5B)"
    if "Suc i = length pre"
  proof -
    from that have "pre \<noteq> []" and "length pre - 1 = i" by auto
    then have l: "last pre = pre ! i"
      by (simp add: last_conv_nth)
    from assms(2) have a: "(pre @ s) ! i = pre ! i"
      by (simp add: nth_append)
    from that have b: "(pre @ s) ! Suc i = s ! 0"
      by (simp add: nth_append)
    from assms(3) \<open>pre \<noteq> []\<close> consider "last pre \<noteq> 0x21" | x r where "s = x # r" "x \<noteq> 0x5B"
      by auto
    then show ?thesis
    proof cases
      case 1
      with l a show ?thesis by simp
    next
      case 2
      with b show ?thesis by simp
    qed
  qed
  from start here next_inside at_end assms(2) show False
    by (cases "Suc i = length pre") auto
qed

text \<open>No wiki-style link starts in text whose only \<open>[\<close> is single and that does not end in \<open>!\<close>.\<close>

lemma no_wiki_inside:
  assumes "0x5B \<notin> set A" and "0x5B \<notin> set B" and "B \<noteq> []" and "last B \<noteq> 0x21"
    and "i \<le> length A + length B"
  shows "matchAt wikiRegex (A @ 0x5B # B @ post) i = None"
proof (rule ccontr)
  let ?s = "A @ 0x5B # B @ post"
  assume "matchAt wikiRegex ?s i \<noteq> None"
  from wiki_start_nth [OF this]
  have start: "(?s ! i = 0x5B \<and> ?s ! Suc i = 0x5B)
       \<or> (?s ! i = 0x21 \<and> ?s ! Suc i = 0x5B \<and> ?s ! Suc (Suc i) = 0x5B)"
    by auto
  have only: "j = length A" if "j \<le> length A + length B" and "?s ! j = 0x5B" for j
  proof (rule ccontr)
    assume ne: "j \<noteq> length A"
    show False
    proof (cases "j < length A")
      case True
      then have "A ! j \<in> set A" by simp
      with assms(1) have "A ! j \<noteq> 0x5B" by metis
      with True that(2) show False by (simp add: nth_append)
    next
      case False
      define k where "k = j - Suc (length A)"
      from False ne that(1) have k: "j = length A + Suc k" and kB: "k < length B"
        unfolding k_def by arith+
      then have "?s ! j = B ! k"
        by (simp add: nth_append)
      moreover from kB have "B ! k \<in> set B" by simp
      with assms(2) have "B ! k \<noteq> 0x5B" by metis
      ultimately show False using that(2) by simp
    qed
  qed
  have after: "?s ! Suc (length A) \<noteq> 0x5B"
  proof -
    from assms(3) have "0 < length B" by simp
    then have "?s ! Suc (length A) = B ! 0"
      by (simp add: nth_append)
    moreover from assms(3) have "B ! 0 \<in> set B" by simp
    with assms(2) have "B ! 0 \<noteq> 0x5B" by metis
    ultimately show ?thesis by simp
  qed
  have final: "?s ! (length A + length B) \<noteq> 0x21"
  proof -
    from assms(3) obtain k where k: "length B = Suc k" by (cases B) auto
    then have "?s ! (length A + length B) = B ! k"
      by (simp add: nth_append)
    moreover from assms(3) k have "last B = B ! k"
      by (simp add: last_conv_nth)
    ultimately show ?thesis using assms(4) by simp
  qed
  from start show False
  proof
    assume a: "?s ! i = 0x5B \<and> ?s ! Suc i = 0x5B"
    with only [OF assms(5)] have "i = length A" by simp
    with a after show False by simp
  next
    assume b: "?s ! i = 0x21 \<and> ?s ! Suc i = 0x5B \<and> ?s ! Suc (Suc i) = 0x5B"
    show False
    proof (cases "i = length A + length B")
      case True
      with b final show False by simp
    next
      case False
      with assms(5) have "Suc i \<le> length A + length B" by simp
      from only [OF this] b have "Suc i = length A" by simp
      with b after show False by simp
    qed
  qed
qed

subsection \<open>Well-formed links\<close>


lemma scan_md_link:
  assumes "0x5B \<notin> set pre"
    and "(bang = [] \<and> (pre = [] \<or> last pre \<noteq> 0x21)) \<or> bang = [0x21]"
    and "\<forall>c \<in> set label. c \<noteq> 0x5D \<and> \<not> isLineTerminator c"
    and "\<forall>c \<in> set target. c \<noteq> 0x29 \<and> \<not> isLineTerminator c"
    and "length pre \<le> offset"
    and "offset \<le> length pre + length bang + length label + length target + 4"
  shows "scan Markdown (pre @ bang @ 0x5B # label @ 0x5D # 0x28 # target @ 0x29 # post) offset 0 =
     Some \<lparr>match_index = length pre,
           match_end = length pre + length bang + length label + length target + 4,
           match_groups = [1 \<mapsto> target]\<rparr>"
proof -
  let ?link = "bang @ 0x5B # label @ 0x5D # 0x28 # target @ 0x29 # post"
  let ?s = "pre @ ?link"
  let ?m = "\<lparr>match_index = length pre,
           match_end = length pre + length bang + length label + length target + 4,
           match_groups = [1 \<mapsto> target]\<rparr>"
  have "\<exists>others. matches mdRegex ?link Map.empty = (post, [1 \<mapsto> target]) # others"
    using assms(2) md_link [OF assms(3,4), of post Map.empty]
      md_embed [OF assms(3,4), of post Map.empty]
    by auto
  then obtain others where "matches mdRegex (drop (length pre) ?s) Map.empty
      = (post, [1 \<mapsto> target]) # others"
    by auto
  from matchAt_head [OF this] have here: "matchAt mdRegex ?s (length pre) = Some ?m"
    by simp
  have before: "\<forall>i. 0 \<le> i \<and> i < length pre \<longrightarrow> matchAt mdRegex ?s i = None"
  proof (intro allI impI)
    fix i assume i: "0 \<le> i \<and> i < length pre"
    have "pre = [] \<or> last pre \<noteq> 0x21 \<or> (\<exists>x r. ?link = x # r \<and> x \<noteq> 0x5B)"
      using assms(2) by auto
    from no_start_before [of pre i ?link Markdown, OF assms(1) _ this] i
    show "matchAt mdRegex ?s i = None" by simp
  qed
  have "exec mdRegex ?s 0 = Some ?m"
    by (rule exec_first [OF _ _ before here]) simp_all
  then show ?thesis
    using assms(5,6) by (intro scan_first) simp_all
qed

lemma scan_wiki_none:
  assumes "0x5B \<notin> set pre" and "bang = [] \<or> bang = [0x21]"
    and "0x5B \<notin> set label" and "0x5B \<notin> set target"
    and "offset < length pre + length bang + length label + length target + 4"
  shows "scan Wiki (pre @ bang @ 0x5B # label @ 0x5D # 0x28 # target @ 0x29 # post) offset 0 = None"
proof (rule scan_none, intro allI impI)
  fix i assume i: "i \<le> offset"
  let ?A = "pre @ bang" and ?B = "label @ 0x5D # 0x28 # target @ [0x29]"
  have a: "0x5B \<notin> set ?A" using assms(1,2) by auto
  have b: "0x5B \<notin> set ?B" using assms(3,4) by auto
  have "matchAt wikiRegex (?A @ 0x5B # ?B @ post) i = None"
    by (rule no_wiki_inside [OF a b]) (use i assms(5) in simp_all)
  then show "matchAt (regexOf Wiki) (pre @ bang @ 0x5B # label @ 0x5D # 0x28 # target @ 0x29 # post) i = None"
    by simp
qed



subsection \<open>The contract of the locator\<close>




lemma getLinkUnderCursor_raises_md:
  assumes "0x5B \<notin> set pre"
    and "(bang = [] \<and> (pre = [] \<or> last pre \<noteq> 0x21)) \<or> bang = js ''!''"
    and "\<forall>c \<in> set label. c \<noteq> 0x5D \<and> c \<noteq> 0x5B \<and> \<not> isLineTerminator c"
    and "\<forall>c \<in> set target. c \<noteq> 0x29 \<and> c \<noteq> 0x5B \<and> \<not> isLineTerminator c"
    and "decodeURIComponent target = Inl URIError"
    and "length pre \<le> offset"
    and "offset < length pre + length bang + length label + length target + 4"
  shows "getLinkUnderCursor (pre @ bang @ js ''['' @ label @ js '']('' @ target @ js '')'' @ post)
       \<lparr>line = l, ch = offset\<rparr> = Inl URIError"
proof -
  have bang: "(bang = [] \<and> (pre = [] \<or> last pre \<noteq> 0x21)) \<or> bang = [0x21]"
    using assms(2) by (simp add: js_def)
  then have bang': "bang = [] \<or> bang = [0x21]" by auto
  have s: "pre @ bang @ js ''['' @ label @ js '']('' @ target @ js '')'' @ post
      = pre @ bang @ 0x5B # label @ 0x5D # 0x28 # target @ 0x29 # post"
    by (simp add: js_def)
  have l: "\<forall>c \<in> set label. c \<noteq> 0x5D \<and> \<not> isLineTerminator c" and l': "0x5B \<notin> set label"
    using assms(3) by auto
  have t: "\<forall>c \<in> set target. c \<noteq> 0x29 \<and> \<not> isLineTerminator c" and t': "0x5B \<notin> set target"
    using assms(4) by auto
  from assms(7) have le: "offset \<le> length pre + length bang + length label + length target + 4"
    by simp
  show ?thesis
    unfolding getLinkUnderCursor_def s
    by (simp add: scan_wiki_none [OF assms(1) bang' l' t' assms(7)]
        scan_md_link [OF assms(1) bang l t assms(6) le] matchGroup_def assms(5))
qed

text \<open>
  C9. The locator is not total: on a line with a Markdown-style link \<open>[label](target)\<close>
  (no bracket in label or target, no \<open>[\<close> before it) whose target
  \<open>decodeURIComponent\<close> rejects, with the cursor from the start of the link to before
  its end, no wiki-style link spans the cursor and \<open>getLinkUnderCursor\<close> throws the
  URIError instead of returning a link or none. \<open>[a](%)\<close> is such a line.
\<close>

theorem getLinkUnderCursor_not_total:
  assumes "0x5B \<notin> set pre"
    and "(bang = [] \<and> (pre = [] \<or> last pre \<noteq> 0x21)) \<or> bang = js ''!''"
    and "\<forall>c \<in> set label. c \<noteq> 0x5D \<and> c \<noteq> 0x5B \<and> \<not> isLineTerminator c"
    and "\<forall>c \<in> set target. c \<noteq> 0x29 \<and> c \<noteq> 0x5B \<and> \<not> isLineTerminator c"
    and "decodeURIComponent target = Inl URIError"
    and "length pre \<le> offset"
    and "offset < length pre + length bang + length label + length target + 4"
  shows "getLinkUnderCursor (pre @ bang @ js ''['' @ label @ js '']('' @ target @ js '')'' @ post)
       \<lparr>line = l, ch = offset\<rparr> = Inl URIError"
  using assms by (rule getLinkUnderCursor_raises_md)

theorem getLinkUnderCursor_not_total_witness:
  "decodeURIComponent (js ''%'') = Inl URIError
   \<and> getLinkUnderCursor (js ''[a](%)'') \<lparr>line = 0, ch = 1\<rparr> = Inl URIError"
proof -
  have malformed: "decodeURIComponent (js ''%'') = Inl URIError"
    by (simp add: js_def)
  have label: "\<forall>c \<in> set (js ''a''). c \<noteq> 0x5D \<and> c \<noteq> 0x5B \<and> \<not> isLineTerminator c"
    by (simp add: js_def isLineTerminator_def)
  have target: "\<forall>c \<in> set (js ''%''). c \<noteq> 0x29 \<and> c \<noteq> 0x5B \<and> \<not> isLineTerminator c"
    by (simp add: js_def isLineTerminator_def)
  have line_eq: "[] @ [] @ js ''['' @ js ''a'' @ js '']('' @ js ''%'' @ js '')'' @ [] = js ''[a](%)''"
    by (simp add: js_def)
  have "getLinkUnderCursor ([] @ [] @ js ''['' @ js ''a'' @ js '']('' @ js ''%'' @ js '')'' @ [])
       \<lparr>line = 0, ch = 1\<rparr> = Inl URIError"
    by (rule getLinkUnderCursor_not_total [OF _ _ label target malformed])
       (simp_all add: js_def)
  with malformed show ?thesis
    unfolding line_eq by simp
qed






end
